theory Spec2Isabelle
  imports Main
begin

section \<open>Path strings\<close>

text \<open>
  The script builds every path with \<^verbatim>\<open>os.path.join\<close> and takes the parent of a file path
  with \<^verbatim>\<open>os.path.dirname\<close>. Both are the POSIX string functions of the Python standard
  library: they look at the characters of their arguments only, never at the file system.
\<close>

text \<open>\<^verbatim>\<open>os.path.join(a, b)\<close>: an absolute \<open>b\<close> replaces \<open>a\<close>; otherwise one separator is put
  between the two unless \<open>a\<close> is empty or already ends with one.\<close>

definition os_path_join :: "string \<Rightarrow> string \<Rightarrow> string" where
  "os_path_join a b =
     (if b \<noteq> [] \<and> hd b = CHR ''/'' then b
      else if a = [] \<or> last a = CHR ''/'' then a @ b
      else a @ ''/'' @ b)"

definition rstrip_sep :: "string \<Rightarrow> string" where
  "rstrip_sep s = rev (dropWhile (\<lambda>c. c = CHR ''/'') (rev s))"

text \<open>\<^verbatim>\<open>os.path.split(p)\<close>: the text up to and including the last separator, with its trailing
  separators removed unless it consists of separators only, and the text after it.\<close>

definition os_path_split :: "string \<Rightarrow> string \<times> string" where
  "os_path_split p =
     (let head = rev (dropWhile (\<lambda>c. c \<noteq> CHR ''/'') (rev p));
          tail = rev (takeWhile (\<lambda>c. c \<noteq> CHR ''/'') (rev p))
      in (if head \<noteq> [] \<and> \<not> list_all (\<lambda>c. c = CHR ''/'') head then rstrip_sep head else head,
          tail))"

definition os_path_dirname :: "string \<Rightarrow> string" where
  "os_path_dirname p = fst (os_path_split p)"

text \<open>The names between the separators of a path, as the kernel reads them: empty names
  (repeated, leading and trailing separators) are skipped.\<close>

fun split_on_sep :: "string \<Rightarrow> string list" where
  "split_on_sep [] = [[]]"
| "split_on_sep (c # cs) =
     (if c = CHR ''/'' then [] # split_on_sep cs
      else (case split_on_sep cs of [] \<Rightarrow> [[c]] | x # xs \<Rightarrow> (c # x) # xs))"

definition components :: "string \<Rightarrow> string list" where
  "components p = filter (\<lambda>s. s \<noteq> []) (split_on_sep p)"

definition is_abs :: "string \<Rightarrow> bool" where
  "is_abs p = (p \<noteq> [] \<and> hd p = CHR ''/'')"

definition ends_with_sep :: "string \<Rightarrow> bool" where
  "ends_with_sep p = (p \<noteq> [] \<and> last p = CHR ''/'')"


section \<open>The file system and the process\<close>

text \<open>
  A location is the list of names leading from the root directory to a node; the root is
  the empty list and always a directory. The tree has directories and regular files (no
  symbolic links, devices or mount points). Besides the tree the world holds the working
  directory of the process, the policy of the host (which request it refuses, and with which
  error: permission denied, disk full, a name the host does not allow), the library calls the
  script has issued so far, and the lines printed on standard output.
\<close>

type_synonym loc = "string list"

datatype node = Dir | File string

datatype error =
    FileNotFoundError
  | FileExistsError
  | NotADirectoryError
  | IsADirectoryError
  | PermissionError
  | OSError

datatype request = ReqMkdir loc | ReqOpen loc | ReqWrite loc string

datatype call = Makedirs string | OpenW string | FileWrite string | Print string

record world =
  nodes :: "loc \<Rightarrow> node option"
  cwd :: loc
  refuses :: "request \<Rightarrow> (loc \<Rightarrow> node option) \<Rightarrow> error option"
  trace :: "call list"
  stdout :: "string list"

text \<open>A call either returns a value in a new world, or raises in the world it has reached.\<close>

datatype 'a outcome = Done 'a world | Raised error world

fun world_of :: "'a outcome \<Rightarrow> world" where
  "world_of (Done x w) = w"
| "world_of (Raised e w) = w"

fun succeeded :: "'a outcome \<Rightarrow> bool" where
  "succeeded (Done x w) = True"
| "succeeded (Raised e w) = False"

fun and_then :: "'a outcome \<Rightarrow> ('a \<Rightarrow> world \<Rightarrow> 'b outcome) \<Rightarrow> 'b outcome" where
  "and_then (Done x w) f = f x w"
| "and_then (Raised e w) f = Raised e w"

definition logged :: "call \<Rightarrow> world \<Rightarrow> world" where
  "logged c w = w\<lparr>trace := trace w @ [c]\<rparr>"

definition node_at :: "(loc \<Rightarrow> node option) \<Rightarrow> loc \<Rightarrow> node option" where
  "node_at fs l = (if l = [] then Some Dir else fs l)"

text \<open>Path resolution: every name is looked up in a directory that exists; \<open>.\<close> stays,
  \<open>..\<close> goes to the parent (the root is its own parent).\<close>

fun walk :: "(loc \<Rightarrow> node option) \<Rightarrow> loc \<Rightarrow> string list \<Rightarrow> error + loc" where
  "walk fs cur [] = Inr cur"
| "walk fs cur (c # cs) =
     (case node_at fs cur of
        None \<Rightarrow> Inl FileNotFoundError
      | Some (File x) \<Rightarrow> Inl NotADirectoryError
      | Some Dir \<Rightarrow>
          walk fs (if c = ''.'' then cur else if c = ''..'' then butlast cur else cur @ [c]) cs)"

definition start_of :: "world \<Rightarrow> string \<Rightarrow> loc" where
  "start_of w p = (if is_abs p then [] else cwd w)"

text \<open>\<^verbatim>\<open>stat\<close>: the node a path names, if any. A trailing separator asks for a directory,
  as if the path ended in \<open>.\<close>.\<close>

definition os_stat :: "world \<Rightarrow> string \<Rightarrow> node option" where
  "os_stat w p =
     (if p = [] then None
      else (case walk (nodes w) (start_of w p)
                   (components p @ (if ends_with_sep p \<and> components p \<noteq> [] then [''.''] else []))
            of Inl e \<Rightarrow> None
             | Inr l \<Rightarrow> node_at (nodes w) l))"

definition os_path_exists :: "world \<Rightarrow> string \<Rightarrow> bool" where
  "os_path_exists w p = (os_stat w p \<noteq> None)"

definition os_path_isdir :: "world \<Rightarrow> string \<Rightarrow> bool" where
  "os_path_isdir w p = (os_stat w p = Some Dir)"

definition read_file :: "world \<Rightarrow> string \<Rightarrow> string option" where
  "read_file w p = (case os_stat w p of Some (File x) \<Rightarrow> Some x | Some Dir \<Rightarrow> None | None \<Rightarrow> None)"

text \<open>\<^verbatim>\<open>os.mkdir(p)\<close>: one new directory; the parent has to exist, the path must not.\<close>

definition os_mkdir :: "string \<Rightarrow> world \<Rightarrow> unit outcome" where
  "os_mkdir p w =
     (if p = [] then Raised FileNotFoundError w
      else (case walk (nodes w) (start_of w p) (components p) of
              Inl e \<Rightarrow> Raised e w
            | Inr l \<Rightarrow>
                if components p = [] \<or> last (components p) = ''.'' \<or> last (components p) = ''..''
                   \<or> node_at (nodes w) l \<noteq> None
                then Raised FileExistsError w
                else (case refuses w (ReqMkdir l) (nodes w) of
                        Some e \<Rightarrow> Raised e w
                      | None \<Rightarrow> Done () (w\<lparr>nodes := (nodes w)(l \<mapsto> Dir)\<rparr>))))"

text \<open>The last step of \<^verbatim>\<open>os.makedirs(name, exist_ok=True)\<close>: an error of \<^verbatim>\<open>mkdir\<close> is
  swallowed when the path is a directory afterwards.\<close>

definition mkdir_exist_ok :: "string \<Rightarrow> world \<Rightarrow> unit outcome" where
  "mkdir_exist_ok name w =
     (case os_mkdir name w of
        Done u w1 \<Rightarrow> Done u w1
      | Raised e w1 \<Rightarrow> if os_path_isdir w1 name then Done () w1 else Raised e w1)"

definition makedirs_head :: "string \<Rightarrow> string" where
  "makedirs_head name =
     (if snd (os_path_split name) = [] then fst (os_path_split (fst (os_path_split name)))
      else fst (os_path_split name))"

definition makedirs_tail :: "string \<Rightarrow> string" where
  "makedirs_tail name =
     (if snd (os_path_split name) = [] then snd (os_path_split (fst (os_path_split name)))
      else snd (os_path_split name))"

text \<open>\<^verbatim>\<open>os.makedirs(name, exist_ok=True)\<close>, as the standard library writes it: split off
  the last name; when the rest does not exist, make it first (a \<^verbatim>\<open>FileExistsError\<close> of
  that call is ignored), and stop there when the last name is \<open>.\<close>; then \<^verbatim>\<open>mkdir\<close>.\<close>

function makedirs :: "string \<Rightarrow> world \<Rightarrow> unit outcome" where
  "makedirs name w =
     (if makedirs_head name \<noteq> [] \<and> makedirs_tail name \<noteq> []
         \<and> \<not> os_path_exists w (makedirs_head name)
      then (case makedirs (makedirs_head name) w of
              Done u w1 \<Rightarrow>
                if makedirs_tail name = ''.'' then Done () w1 else mkdir_exist_ok name w1
            | Raised e w1 \<Rightarrow>
                if e = FileExistsError
                then (if makedirs_tail name = ''.'' then Done () w1 else mkdir_exist_ok name w1)
                else Raised e w1)
      else mkdir_exist_ok name w)"
  by pat_completeness auto
termination
proof (relation "measure (\<lambda>(name, w). length name)")
  show "wf (measure (\<lambda>(name, w). length name))" by simp
next
  fix name :: string and w :: world
  assume a: "makedirs_head name \<noteq> [] \<and> makedirs_tail name \<noteq> []
    \<and> \<not> os_path_exists w (makedirs_head name)"
  have a0: "length (dropWhile P xs) + length (takeWhile P xs) = length xs"
    for P and xs :: string
    by (induction xs) auto
  have a1: "length (rstrip_sep s) \<le> length s" for s
    unfolding rstrip_sep_def using length_dropWhile_le [of _ "rev s"] by simp
  have le: "length (fst (os_path_split p)) + length (snd (os_path_split p)) \<le> length p" for p
    using a1 [of "rev (dropWhile (\<lambda>c. c \<noteq> CHR ''/'') (rev p))"]
      a0 [of "\<lambda>c. c \<noteq> CHR ''/''" "rev p"]
    by (simp add: os_path_split_def Let_def)
  have "length (makedirs_head name) + length (makedirs_tail name) \<le> length name"
    using le [of name] le [of "fst (os_path_split name)"]
    by (auto simp: makedirs_head_def makedirs_tail_def)
  moreover from a obtain c cs where "makedirs_tail name = c # cs"
    by (cases "makedirs_tail name") auto
  ultimately show "((makedirs_head name, w), (name, w)) \<in> measure (\<lambda>(name, w). length name)"
    by simp
qed

declare makedirs.simps [simp del]

definition os_makedirs :: "string \<Rightarrow> world \<Rightarrow> unit outcome" where
  "os_makedirs name w = makedirs name (logged (Makedirs name) w)"

text \<open>\<^verbatim>\<open>open(p, 'w')\<close>: the file is created if it is missing and emptied if it exists; the
  handle returned is the location of the file.\<close>

definition sys_open :: "string \<Rightarrow> world \<Rightarrow> loc outcome" where
  "sys_open p w =
     (if p = [] then Raised FileNotFoundError w
      else (case walk (nodes w) (start_of w p) (components p) of
              Inl e \<Rightarrow> Raised e w
            | Inr l \<Rightarrow>
                if components p = [] \<or> last (components p) = ''.'' \<or> last (components p) = ''..''
                   \<or> node_at (nodes w) l = Some Dir
                then Raised IsADirectoryError w
                else if ends_with_sep p
                then Raised (case node_at (nodes w) l of
                               Some (File x) \<Rightarrow> NotADirectoryError
                             | Some Dir \<Rightarrow> IsADirectoryError
                             | None \<Rightarrow> IsADirectoryError) w
                else (case refuses w (ReqOpen l) (nodes w) of
                        Some e \<Rightarrow> Raised e w
                      | None \<Rightarrow> Done l (w\<lparr>nodes := (nodes w)(l \<mapsto> File [])\<rparr>))))"

definition open_w :: "string \<Rightarrow> world \<Rightarrow> loc outcome" where
  "open_w p w = sys_open p (logged (OpenW p) w)"

text \<open>\<^verbatim>\<open>f.write(content)\<close> and the close at the end of the \<^verbatim>\<open>with\<close> block, on a file
  that has just been emptied. Nothing is sent to the host for an empty string.\<close>

definition file_write :: "loc \<Rightarrow> string \<Rightarrow> world \<Rightarrow> unit outcome" where
  "file_write f content w0 =
     (let w = logged (FileWrite content) w0
      in if content = [] then Done () w
         else (case refuses w (ReqWrite f content) (nodes w) of
                 Some e \<Rightarrow> Raised e w
               | None \<Rightarrow> Done () (w\<lparr>nodes := (nodes w)(f \<mapsto> File content)\<rparr>)))"

definition print_line :: "string \<Rightarrow> world \<Rightarrow> unit outcome" where
  "print_line s w = Done () (logged (Print s) (w\<lparr>stdout := stdout w @ [s]\<rparr>))"


section \<open>The script\<close>

definition default_content :: string where
  "default_content = []"

definition create_file :: "string \<Rightarrow> string \<Rightarrow> world \<Rightarrow> unit outcome" where
  "create_file path content w =
     and_then (os_makedirs (os_path_dirname path) w) (\<lambda>u w1.
     and_then (open_w path w1) (\<lambda>f w2.
     file_write f content w2))"

fun for_each :: "('a \<Rightarrow> world \<Rightarrow> unit outcome) \<Rightarrow> 'a list \<Rightarrow> world \<Rightarrow> unit outcome" where
  "for_each body [] w = Done () w"
| "for_each body (x # xs) w = and_then (body x w) (\<lambda>u. for_each body xs)"

fun in_order :: "(world \<Rightarrow> unit outcome) list \<Rightarrow> world \<Rightarrow> unit outcome" where
  "in_order [] w = Done () w"
| "in_order (a # as) w = and_then (a w) (\<lambda>u. in_order as)"

definition base_dir :: string where
  "base_dir = ''wattschain-mlm-platform''"

definition root_files :: "string list" where
  "root_files =
   [''README.md'',
    ''package.json'',
    ''next.config.js'',
    ''tailwind.config.ts'',
    ''postcss.config.js'',
    ''.env.local'',
    ''.env.example'',
    ''.gitignore'',
    ''tsconfig.json'',
    ''components.json'',
    ''middleware.ts'',
    ''docker-compose.yml'']"

definition public_dirs :: "string list" where
  "public_dirs =
   [''public/images/payment-methods'',
    ''public/locales/en'',
    ''public/locales/sw'']"

definition public_files :: "(string \<times> string) list" where
  "public_files =
   [(''public/favicon.ico'', ''''),
    (''public/logo.png'', ''''),
    (''public/wattschain-logo.svg'', ''''),
    (''public/images/kyc-verification.png'', ''''),
    (''public/images/token-icon.png'', ''''),
    (''public/locales/en/common.json'', ''''),
    (''public/locales/sw/common.json'', '''')]"

definition src_dirs :: "string list" where
  "src_dirs =
   [''src/app/(marketing)/about'',
    ''src/app/(marketing)/whitepaper'',
    ''src/app/(marketing)/legal/[type]'',
    ''src/app/(marketing)/contact'',
    ''src/app/(auth)/login'',
    ''src/app/(auth)/register'',
    ''src/app/(auth)/forgot-password'',
    ''src/app/(auth)/verify-email'',
    ''src/app/(auth)/invite/[code]'',
    ''src/app/(dashboard)/dashboard'',
    ''src/app/(dashboard)/profile'',
    ''src/app/(dashboard)/wallet'',
    ''src/app/(dashboard)/transactions'',
    ''src/app/(dashboard)/token-purchase/checkout'',
    ''src/app/(dashboard)/token-purchase/payment/[ivisethod]'',
    ''src/app/(dashboard)/token-purchase/success'',
    ''src/app/(dashboard)/affiliate/tree'',
    ''src/app/(dashboard)/affiliate/commissions'',
    ''src/app/(dashboard)/affiliate/referrals'',
    ''src/app/(dashboard)/affiliate/withdraw'',
    ''src/app/(dashboard)/kyc/verification'',
    ''src/app/(dashboard)/kyc/status'',
    ''src/app/(dashboard)/support/tickets'',
    ''src/app/(dashboard)/support/faq'',
    ''src/app/(admin)/admin/users'',
    ''src/app/(admin)/admin/mlm/tree-audit'',
    ''src/app/(admin)/admin/mlm/commissions'',
    ''src/app/(admin)/admin/mlm/settings'',
    ''src/app/(admin)/admin/transactions'',
    ''src/app/(admin)/admin/kyc-reviews'',
    ''src/app/(admin)/admin/token-pricing'',
    ''src/app/(admin)/admin/reports'',
    ''src/app/api/auth'',
    ''src/app/api/user'',
    ''src/app/api/token'',
    ''src/app/api/payment/mpesa/[action]'',
    ''src/app/api/payment/crypto/[action]'',
    ''src/app/api/payment/stripe/[action]'',
    ''src/app/api/mlm'',
    ''src/app/api/kyc'',
    ''src/app/api/admin'',
    ''src/app/api/webhooks/payment/[provider]'',
    ''src/app/api/webhooks/kyc'',
    ''src/components/ui'',
    ''src/components/layout'',
    ''src/components/auth'',
    ''src/components/dashboard'',
    ''src/components/token'',
    ''src/components/mlm'',
    ''src/components/kyc'',
    ''src/components/admin'',
    ''src/components/payments'',
    ''src/components/common'',
    ''src/lib'',
    ''src/types'',
    ''src/models'',
    ''src/hooks'',
    ''src/context'',
    ''src/store'',
    ''src/middleware'']"

definition src_files :: "(string \<times> string) list" where
  "src_files =
   [(''src/app/globals.css'', ''''),
    (''src/app/layout.tsx'', ''''),
    (''src/app/page.tsx'', ''''),
    (''src/app/loading.tsx'', ''''),
    (''src/app/error.tsx'', ''''),
    (''src/app/not-found.tsx'', ''''),
    (''src/app/(marketing)/layout.tsx'', ''''),
    (''src/app/(marketing)/about/page.tsx'', ''''),
    (''src/app/(marketing)/whitepaper/page.tsx'', ''''),
    (''src/app/(marketing)/legal/[type]/page.tsx'', ''''),
    (''src/app/(marketing)/contact/page.tsx'', ''''),
    (''src/app/(auth)/layout.tsx'', ''''),
    (''src/app/(auth)/login/page.tsx'', ''''),
    (''src/app/(auth)/register/page.tsx'', ''''),
    (''src/app/(auth)/forgot-password/page.tsx'', ''''),
    (''src/app/(auth)/verify-email/page.tsx'', ''''),
    (''src/app/(auth)/invite/[code]/page.tsx'', ''''),
    (''src/app/(dashboard)/layout.tsx'', ''''),
    (''src/app/(dashboard)/dashboard/page.tsx'', ''''),
    (''src/app/(dashboard)/profile/page.tsx'', ''''),
    (''src/app/(dashboard)/wallet/page.tsx'', ''''),
    (''src/app/(dashboard)/transactions/page.tsx'', ''''),
    (''src/app/(dashboard)/token-purchase/page.tsx'', ''''),
    (''src/app/(dashboard)/token-purchase/checkout/page.tsx'', ''''),
    (''src/app/(dashboard)/token-purchase/payment/[method]/page.tsx'', ''''),
    (''src/app/(dashboard)/token-purchase/success/page.tsx'', ''''),
    (''src/app/(dashboard)/affiliate/page.tsx'', ''''),
    (''src/app/(dashboard)/affiliate/tree/page.tsx'', ''''),
    (''src/app/(dashboard)/affiliate/commissions/page.tsx'', ''''),
    (''src/app/(dashboard)/affiliate/referrals/page.tsx'', ''''),
    (''src/app/(dashboard)/affiliate/withdraw/page.tsx'', ''''),
    (''src/app/(dashboard)/kyc/page.tsx'', ''''),
    (''src/app/(dashboard)/kyc/verification/page.tsx'', ''''),
    (''src/app/(dashboard)/kyc/status/page.tsx'', ''''),
    (''src/app/(dashboard)/support/page.tsx'', ''''),
    (''src/app/(dashboard)/support/tickets/page.tsx'', ''''),
    (''src/app/(dashboard)/support/faq/page.tsx'', ''''),
    (''src/app/(admin)/layout.tsx'', ''''),
    (''src/app/(admin)/admin/page.tsx'', ''''),
    (''src/app/(admin)/admin/users/page.tsx'', ''''),
    (''src/app/(admin)/admin/mlm/page.tsx'', ''''),
    (''src/app/(admin)/admin/mlm/tree-audit/page.tsx'', ''''),
    (''src/app/(admin)/admin/mlm/commissions/page.tsx'', ''''),
    (''src/app/(admin)/admin/mlm/settings/page.tsx'', ''''),
    (''src/app/(admin)/admin/transactions/page.tsx'', ''''),
    (''src/app/(admin)/admin/kyc-reviews/page.tsx'', ''''),
    (''src/app/(admin)/admin/token-pricing/page.tsx'', ''''),
    (''src/app/(admin)/admin/reports/page.tsx'', ''''),
    (''src/app/api/auth/login/route.ts'', ''''),
    (''src/app/api/auth/register/route.ts'', ''''),
    (''src/app/api/auth/logout/route.ts'', ''''),
    (''src/app/api/auth/verify-email/route.ts'', ''''),
    (''src/app/api/user/profile/route.ts'', ''''),
    (''src/app/api/user/wallet/route.ts'', ''''),
    (''src/app/api/user/transactions/route.ts'', ''''),
    (''src/app/api/token/purchase/route.ts'', ''''),
    (''src/app/api/token/price/route.ts'', ''''),
    (''src/app/api/token/balance/route.ts'', ''''),
    (''src/app/api/payment/mpesa/[action]/route.ts'', ''''),
    (''src/app/api/payment/crypto/[action]/route.ts'', ''''),
    (''src/app/api/payment/stripe/[action]/route.ts'', ''''),
    (''src/app/api/mlm/tree/route.ts'', ''''),
    (''src/app/api/mlm/commissions/route.ts'', ''''),
    (''src/app/api/mlm/referrals/route.ts'', ''''),
    (''src/app/api/mlm/withdraw/route.ts'', ''''),
    (''src/app/api/mlm/validate-referral/route.ts'', ''''),
    (''src/app/api/kyc/submit/route.ts'', ''''),
    (''src/app/api/kyc/status/route.ts'', ''''),
    (''src/app/api/kyc/shuftipro-webhook/route.ts'', ''''),
    (''src/app/api/admin/users/route.ts'', ''''),
    (''src/app/api/admin/mlm/[action]/route.ts'', ''''),
    (''src/app/api/admin/transactions/route.ts'', ''''),
    (''src/app/api/admin/kyc-reviews/route.ts'', ''''),
    (''src/app/api/admin/token-pricing/route.ts'', ''''),
    (''src/app/api/admin/reports/route.ts'', ''''),
    (''src/app/api/webhooks/payment/[provider]/route.ts'', ''''),
    (''src/app/api/webhooks/kyc/shuftipro/route.ts'', ''''),
    (''src/components/ui/button.tsx'', ''''),
    (''src/components/ui/input.tsx'', ''''),
    (''src/components/ui/card.tsx'', ''''),
    (''src/components/ui/dialog.tsx'', ''''),
    (''src/components/ui/table.tsx'', ''''),
    (''src/components/ui/badge.tsx'', ''''),
    (''src/components/ui/alert.tsx'', ''''),
    (''src/components/ui/toast.tsx'', ''''),
    (''src/components/ui/select.tsx'', ''''),
    (''src/components/ui/textarea.tsx'', ''''),
    (''src/components/ui/spinner.tsx'', ''''),
    (''src/components/layout/Header.tsx'', ''''),
    (''src/components/layout/Footer.tsx'', ''''),
    (''src/components/layout/Sidebar.tsx'', ''''),
    (''src/components/layout/DashboardLayout.tsx'', ''''),
    (''src/components/auth/LoginForm.tsx'', ''''),
    (''src/components/auth/RegisterForm.tsx'', ''''),
    (''src/components/auth/ProtectedRoute.tsx'', ''''),
    (''src/components/auth/KYCStatus.tsx'', ''''),
    (''src/components/dashboard/DashboardStats.tsx'', ''''),
    (''src/components/dashboard/WalletBalance.tsx'', ''''),
    (''src/components/dashboard/RecentTransactions.tsx'', ''''),
    (''src/components/token/TokenPurchaseForm.tsx'', ''''),
    (''src/components/token/PresalePricing.tsx'', ''''),
    (''src/components/token/PaymentMethods.tsx'', ''''),
    (''src/components/mlm/ReferralTree.tsx'', ''''),
    (''src/components/mlm/CommissionTracker.tsx'', ''''),
    (''src/components/mlm/ReferralLink.tsx'', ''''),
    (''src/components/mlm/WithdrawForm.tsx'', ''''),
    (''src/components/mlm/LockPeriodDisplay.tsx'', ''''),
    (''src/components/kyc/KYCForm.tsx'', ''''),
    (''src/components/kyc/DocumentUpload.tsx'', ''''),
    (''src/components/kyc/VerificationStatus.tsx'', ''''),
    (''src/components/admin/UserManagement.tsx'', ''''),
    (''src/components/admin/MLMTreeViewer.tsx'', ''''),
    (''src/components/admin/CommissionManager.tsx'', ''''),
    (''src/components/admin/KYCReviewPanel.tsx'', ''''),
    (''src/components/admin/PresalePricingManager.tsx'', ''''),
    (''src/components/admin/TransactionMonitor.tsx'', ''''),
    (''src/components/payments/MPesaPayment.tsx'', ''''),
    (''src/components/payments/CryptoPayment.tsx'', ''''),
    (''src/components/payments/StripePayment.tsx'', ''''),
    (''src/components/common/DataTable.tsx'', ''''),
    (''src/components/common/LoadingSpinner.tsx'', ''''),
    (''src/components/common/ErrorBoundary.tsx'', ''''),
    (''src/lib/utils.ts'', ''''),
    (''src/lib/constants.ts'', ''''),
    (''src/lib/validations.ts'', ''''),
    (''src/lib/auth.ts'', ''''),
    (''src/lib/database.ts'', ''''),
    (''src/lib/payments.ts'', ''''),
    (''src/lib/kyc.ts'', ''''),
    (''src/lib/mlm.ts'', ''''),
    (''src/lib/email.ts'', ''''),
    (''src/lib/presale-pricing.ts'', ''''),
    (''src/types/index.ts'', ''''),
    (''src/types/auth.ts'', ''''),
    (''src/types/user.ts'', ''''),
    (''src/types/transaction.ts'', ''''),
    (''src/types/mlm.ts'', ''''),
    (''src/types/kyc.ts'', ''''),
    (''src/types/payment.ts'', ''''),
    (''src/types/presale.ts'', ''''),
    (''src/models/User.ts'', ''''),
    (''src/models/Transaction.ts'', ''''),
    (''src/models/MLMTree.ts'', ''''),
    (''src/models/Commission.ts'', ''''),
    (''src/models/KYC.ts'', ''''),
    (''src/models/Token.ts'', ''''),
    (''src/models/Wallet.ts'', ''''),
    (''src/models/Payment.ts'', ''''),
    (''src/models/PresaleRound.ts'', ''''),
    (''src/hooks/useAuth.ts'', ''''),
    (''src/hooks/useUser.ts'', ''''),
    (''src/hooks/useMLM.ts'', ''''),
    (''src/hooks/useTransactions.ts'', ''''),
    (''src/hooks/useKYC.ts'', ''''),
    (''src/hooks/usePayments.ts'', ''''),
    (''src/hooks/usePresalePricing.ts'', ''''),
    (''src/context/AuthContext.tsx'', ''''),
    (''src/context/UserContext.tsx'', ''''),
    (''src/context/MLMContext.tsx'', ''''),
    (''src/store/authStore.ts'', ''''),
    (''src/store/userStore.ts'', ''''),
    (''src/store/mlmStore.ts'', ''''),
    (''src/middleware/auth.ts'', ''''),
    (''src/middleware/admin.ts'', ''''),
    (''src/middleware/rateLimit.ts'', '''')]"

definition docs_files :: "string list" where
  "docs_files =
   [''docs/API.md'',
    ''docs/MLM_LOGIC.md'',
    ''docs/PRESALE_ROUNDS.md'']"

definition test_dirs :: "string list" where
  "test_dirs =
   [''tests/components'',
    ''tests/api'',
    ''tests/lib'']"

definition create_directory_structure :: "world \<Rightarrow> unit outcome" where
  "create_directory_structure =
     in_order
      [os_makedirs base_dir,
       for_each (\<lambda>file. create_file (os_path_join base_dir file) default_content) root_files,
       for_each (\<lambda>dir_path. os_makedirs (os_path_join base_dir dir_path)) public_dirs,
       for_each (\<lambda>(file_path, content). create_file (os_path_join base_dir file_path) content)
         public_files,
       for_each (\<lambda>dir_path. os_makedirs (os_path_join base_dir dir_path)) src_dirs,
       for_each (\<lambda>(file_path, content). create_file (os_path_join base_dir file_path) content)
         src_files,
       os_makedirs (os_path_join base_dir ''data''),
       create_file (os_path_join base_dir ''data/presale-pricing.json'') [],
       for_each (\<lambda>file. create_file (os_path_join base_dir file) default_content) docs_files,
       for_each (\<lambda>dir_path. os_makedirs (os_path_join base_dir dir_path)) test_dirs]"

definition main :: "world \<Rightarrow> unit outcome" where
  "main w =
     and_then (create_directory_structure w) (\<lambda>u.
     print_line ''Directory structure created successfully!'')"


section \<open>The script as a list of steps\<close>

text \<open>
  Every statement of \<open>create_directory_structure\<close> is a call of \<^verbatim>\<open>os.makedirs\<close> or of
  \<open>create_file\<close>. The list \<open>program_steps\<close> names these calls in the order of the source text;
  lemma \<open>cds_steps\<close> below shows that running the list is what the script does.
\<close>

datatype step = MakedirsStep string | CreateFileStep string string

fun run_step :: "step \<Rightarrow> world \<Rightarrow> unit outcome" where
  "run_step (MakedirsStep p) w = os_makedirs p w"
| "run_step (CreateFileStep p c) w = create_file p c w"

definition dir_step :: "string \<Rightarrow> step" where
  "dir_step d = MakedirsStep (os_path_join base_dir d)"

definition file_step :: "string \<times> string \<Rightarrow> step" where
  "file_step e = CreateFileStep (os_path_join base_dir (fst e)) (snd e)"

definition default_step :: "string \<Rightarrow> step" where
  "default_step f = CreateFileStep (os_path_join base_dir f) default_content"

definition program_steps :: "step list" where
  "program_steps =
     [MakedirsStep base_dir]
     @ map default_step root_files
     @ map dir_step public_dirs
     @ map file_step public_files
     @ map dir_step src_dirs
     @ map file_step src_files
     @ [dir_step ''data'', file_step (''data/presale-pricing.json'', [])]
     @ map default_step docs_files
     @ map dir_step test_dirs"

text \<open>The library calls a step issues when nothing fails.\<close>

fun calls_of_step :: "step \<Rightarrow> call list" where
  "calls_of_step (MakedirsStep p) = [Makedirs p]"
| "calls_of_step (CreateFileStep p c) = [Makedirs (os_path_dirname p), OpenW p, FileWrite c]"

definition program_calls :: "call list" where
  "program_calls = concat (map calls_of_step program_steps)"

text \<open>The calls a run has issued: what it appended to the trace.\<close>

definition calls_made :: "world \<Rightarrow> 'a outcome \<Rightarrow> call list" where
  "calls_made w r = drop (length (trace w)) (trace (world_of r))"

text \<open>Two worlds that differ in the tree only.\<close>

definition only_nodes :: "world \<Rightarrow> world \<Rightarrow> bool" where
  "only_nodes w w' = (w' = w\<lparr>nodes := nodes w'\<rparr>)"

text \<open>How one tree relates to a later one: \<open>dirs_kept\<close> when every directory is still a
  directory, \<open>files_kept\<close> when every file is still the same file, \<open>adds_dirs\<close> when
  the only change is new directories at locations that were free.\<close>

definition dirs_kept :: "(loc \<Rightarrow> node option) \<Rightarrow> (loc \<Rightarrow> node option) \<Rightarrow> bool" where
  "dirs_kept fs fs' = (\<forall>l. fs l = Some Dir \<longrightarrow> fs' l = Some Dir)"

definition files_kept :: "(loc \<Rightarrow> node option) \<Rightarrow> (loc \<Rightarrow> node option) \<Rightarrow> bool" where
  "files_kept fs fs' = (\<forall>l x. fs l = Some (File x) \<longrightarrow> fs' l = Some (File x))"

definition adds_dirs :: "(loc \<Rightarrow> node option) \<Rightarrow> (loc \<Rightarrow> node option) \<Rightarrow> bool" where
  "adds_dirs fs fs' = (\<forall>l. fs' l = fs l \<or> (fs l = None \<and> fs' l = Some Dir))"

definition plain_names :: "string list \<Rightarrow> bool" where
  "plain_names cs = list_all (\<lambda>c. c \<noteq> ''.'' \<and> c \<noteq> ''..'') cs"

text \<open>A fresh start: the process runs in the root directory of an empty tree, on a host
  that refuses nothing.\<close>

definition empty_world :: world where
  "empty_world =
     \<lparr>nodes = (\<lambda>l. None), cwd = [], refuses = (\<lambda>r fs. None), trace = [], stdout = []\<rparr>"

text \<open>Nothing is lost between two worlds: the process is where it was, every directory is
  still a directory, and every file is still a file with its old content or empty.\<close>

definition kept :: "world \<Rightarrow> world \<Rightarrow> bool" where
  "kept w w' =
     (cwd w' = cwd w \<and> refuses w' = refuses w \<and> dirs_kept (nodes w) (nodes w')
      \<and> (\<forall>l x. nodes w l = Some (File x) \<longrightarrow>
             nodes w' l = Some (File x) \<or> nodes w' l = Some (File [])))"

text \<open>The shape of the paths of the script, checked on every step below: relative, the
  directory names without a dot, the file name with one.\<close>

definition dotless :: "string \<Rightarrow> bool" where
  "dotless c = (CHR ''.'' \<notin> set c)"

definition dir_names_ok :: "string list \<Rightarrow> bool" where
  "dir_names_ok cs = (cs \<noteq> [] \<and> list_all dotless cs)"

definition dir_path_ok :: "string \<Rightarrow> bool" where
  "dir_path_ok p = (p \<noteq> [] \<and> \<not> is_abs p \<and> dir_names_ok (components p))"

definition file_names_ok :: "string list \<Rightarrow> bool" where
  "file_names_ok cs =
     (cs \<noteq> [] \<and> dir_names_ok (butlast cs) \<and> \<not> dotless (last cs)
      \<and> last cs \<noteq> ''.'' \<and> last cs \<noteq> ''..'')"

definition file_path_ok :: "string \<Rightarrow> bool" where
  "file_path_ok p =
     (p \<noteq> [] \<and> \<not> is_abs p \<and> \<not> ends_with_sep p \<and> file_names_ok (components p))"

fun step_ok :: "step \<Rightarrow> bool" where
  "step_ok (MakedirsStep p) = dir_path_ok p"
| "step_ok (CreateFileStep p c) = (file_path_ok p \<and> c = [])"

text \<open>What a step has brought about when it returns.\<close>

fun step_post :: "step \<Rightarrow> world \<Rightarrow> bool" where
  "step_post (MakedirsStep p) w = os_path_isdir w p"
| "step_post (CreateFileStep p c) w =
     (os_path_isdir w (os_path_dirname p) \<and> read_file w p = Some c)"

text \<open>A world in which the script cannot fail: the working directory exists, the host
  refuses nothing, every file has a dot in its name and no directory has one.\<close>

definition tidy :: "world \<Rightarrow> bool" where
  "tidy w =
     (node_at (nodes w) (cwd w) = Some Dir
      \<and> (\<forall>r fs. refuses w r fs = None)
      \<and> (\<forall>l x. l \<noteq> [] \<and> nodes w l = Some (File x) \<longrightarrow> \<not> dotless (last l))
      \<and> (\<forall>l. l \<noteq> [] \<and> nodes w l = Some Dir \<longrightarrow> dotless (last l)))"

text \<open>A tree in which the script must fail: the root exists already, and where the first
  file is to go there is a directory.\<close>

definition clash_world :: world where
  "clash_world =
     \<lparr>nodes = (\<lambda>l. if l = [''wattschain-mlm-platform'']
                        \<or> l = [''wattschain-mlm-platform'', ''README.md'']
                     then Some Dir else None),
      cwd = [], refuses = (\<lambda>r fs. None), trace = [], stdout = []\<rparr>"

text \<open>The calls \<open>create_file\<close> issues when nothing fails.\<close>

definition create_file_calls :: "string \<Rightarrow> string \<Rightarrow> call list" where
  "create_file_calls p c = [Makedirs (os_path_dirname p), OpenW p, FileWrite c]"

text \<open>The files the script creates, as the tables name them (relative to \<open>base_dir\<close>).\<close>

definition created_files :: "string list" where
  "created_files =
     root_files @ map fst public_files @ map fst src_files
     @ [''data/presale-pricing.json''] @ docs_files"

text \<open>A change made behind the back of the script: the file a path names gets another
  content (nothing happens when the path does not name a file).\<close>

definition edit_file :: "string \<Rightarrow> string \<Rightarrow> world \<Rightarrow> world" where
  "edit_file p x w =
     (case walk (nodes w) (start_of w p) (components p) of
        Inl e \<Rightarrow> w
      | Inr l \<Rightarrow>
          (case node_at (nodes w) l of
             Some (File y) \<Rightarrow> w\<lparr>nodes := (nodes w)(l \<mapsto> File x)\<rparr>
           | Some Dir \<Rightarrow> w
           | None \<Rightarrow> w))"

text \<open>The outcome of a run that changes nothing in the tree and can only fail because the
  host refuses to open a file.\<close>

definition rerun_ok :: "world \<Rightarrow> unit outcome \<Rightarrow> bool" where
  "rerun_ok w r =
     (nodes (world_of r) = nodes w \<and> cwd (world_of r) = cwd w \<and> refuses (world_of r) = refuses w
      \<and> (case r of
            Done u w' \<Rightarrow> True
          | Raised e w' \<Rightarrow>
              (\<exists>l. refuses w (ReqOpen l) (nodes w) = Some e)
              \<and> (\<exists>p. trace w' \<noteq> [] \<and> last (trace w') = OpenW p)))"

text \<open>The entries of the tables: the paths, relative to \<open>base_dir\<close>, that the script joins
  with it.\<close>

definition table_entries :: "string list" where
  "table_entries =
     root_files @ public_dirs @ map fst public_files @ src_dirs @ map fst src_files
     @ [''data'', ''data/presale-pricing.json''] @ docs_files @ test_dirs"






text \<open>The path a step is given, and the locations a path names on its way: one for every
  non-empty prefix of its names.\<close>

fun step_path :: "step \<Rightarrow> string" where
  "step_path (MakedirsStep p) = p"
| "step_path (CreateFileStep p c) = p"

definition path_locs :: "world \<Rightarrow> string \<Rightarrow> loc list" where
  "path_locs w p =
     map (\<lambda>k. start_of w p @ take k (components p)) [1 ..< Suc (length (components p))]"

text \<open>A host that refuses to make the directory \<open>public\<close> of the tree, on an empty tree.\<close>

definition deny_world :: world where
  "deny_world =
     \<lparr>nodes = (\<lambda>l. None), cwd = [],
      refuses = (\<lambda>r fs. if r = ReqMkdir [''wattschain-mlm-platform'', ''public'']
                          then Some PermissionError else None),
      trace = [], stdout = []\<rparr>"

text \<open>Two worlds with the same file system: the same tree, the same working directory and
  the same host. What has been called and printed so far may differ. Two outcomes are the
  same when both return the same value or both raise the same error, and the worlds they
  leave have the same file system.\<close>

definition same_state :: "world \<Rightarrow> world \<Rightarrow> bool" where
  "same_state w1 w2 = (nodes w1 = nodes w2 \<and> cwd w1 = cwd w2 \<and> refuses w1 = refuses w2)"



section \<open>Sequencing\<close>

lemma and_then_Done_iff:
  "and_then r f = Done y w' \<longleftrightarrow> (\<exists>x w1. r = Done x w1 \<and> f x w1 = Done y w')"
  by (cases r) auto

lemma and_then_Raised_iff:
  "and_then r f = Raised e w' \<longleftrightarrow>
     r = Raised e w' \<or> (\<exists>x w1. r = Done x w1 \<and> f x w1 = Raised e w')"
  by (cases r) auto

lemma for_each_append:
  "for_each body (xs @ ys) w = and_then (for_each body xs w) (\<lambda>u. for_each body ys)"
proof (induction xs arbitrary: w)
  case Nil
  show ?case by simp
next
  case (Cons x xs)
  show ?case
  proof (cases "body x w")
    case (Done u w1)
    then show ?thesis using Cons.IH [of w1] by simp
  next
    case (Raised e w1)
    then show ?thesis by simp
  qed
qed

lemma for_each_map: "for_each body (map g xs) w = for_each (\<lambda>x. body (g x)) xs w"
proof (induction xs arbitrary: w)
  case Nil
  show ?case by simp
next
  case (Cons x xs)
  show ?case by (cases "body (g x) w") (simp_all add: Cons.IH)
qed

lemma for_each_single: "for_each body [x] w = body x w"
  by (cases "body x w") simp_all

lemma and_then_assoc:
  "and_then (and_then r f) g = and_then r (\<lambda>x w. and_then (f x w) g)"
  by (cases r) simp_all

lemma and_then_cong_fun: "(\<And>x w. f x w = g x w) \<Longrightarrow> and_then r f = and_then r g"
  by (cases r) simp_all

lemma in_order_concat: "in_order (map (for_each body) xss) w = for_each body (concat xss) w"
proof (induction xss arbitrary: w)
  case Nil
  show ?case by simp
next
  case (Cons xs xss)
  show ?case
    by (simp only: list.map in_order.simps concat.simps for_each_append)
       (rule and_then_cong_fun, rule Cons.IH)
qed

lemma run_step_MakedirsStep: "run_step (MakedirsStep p) = os_makedirs p"
  by (intro ext) simp

lemma run_step_CreateFileStep: "run_step (CreateFileStep p c) = create_file p c"
  by (intro ext) simp

lemma cds_steps: "create_directory_structure w = for_each run_step program_steps w"
proof -
  have mk: "os_makedirs p = for_each run_step [MakedirsStep p]" for p
    by (intro ext) (simp only: for_each_single run_step.simps)
  have cf: "create_file p c = for_each run_step [CreateFileStep p c]" for p c
    by (intro ext) (simp only: for_each_single run_step.simps)
  have d: "for_each (\<lambda>dir_path. os_makedirs (os_path_join base_dir dir_path)) xs
      = for_each run_step (map dir_step xs)" for xs
    by (intro ext) (simp add: for_each_map dir_step_def run_step_MakedirsStep)
  have f: "for_each (\<lambda>(file_path, content). create_file (os_path_join base_dir file_path) content) xs
      = for_each run_step (map file_step xs)" for xs
    by (intro ext) (simp add: for_each_map file_step_def case_prod_unfold run_step_CreateFileStep)
  have r: "for_each (\<lambda>file. create_file (os_path_join base_dir file) default_content) xs
      = for_each run_step (map default_step xs)" for xs
    by (intro ext) (simp add: for_each_map default_step_def run_step_CreateFileStep)
  have "create_directory_structure w =
      in_order (map (for_each run_step)
        [[MakedirsStep base_dir], map default_step root_files, map dir_step public_dirs,
         map file_step public_files, map dir_step src_dirs, map file_step src_files,
         [MakedirsStep (os_path_join base_dir ''data'')],
         [CreateFileStep (os_path_join base_dir ''data/presale-pricing.json'') []],
         map default_step docs_files, map dir_step test_dirs]) w"
    unfolding create_directory_structure_def
    by (simp only: d f r list.map mk [symmetric] cf [symmetric])
  also have "\<dots> = for_each run_step program_steps w"
    unfolding in_order_concat
    by (simp add: program_steps_def dir_step_def file_step_def)
  finally show ?thesis .
qed

section \<open>What a call leaves alone\<close>

text \<open>The system calls change the tree only: working directory, host policy, trace and
  output stay as they are.\<close>

lemma only_nodes_refl: "only_nodes w w"
  by (simp add: only_nodes_def)

lemma only_nodes_trans: "only_nodes w w1 \<Longrightarrow> only_nodes w1 w2 \<Longrightarrow> only_nodes w w2"
  unfolding only_nodes_def by (metis world.update_convs(1) world.surjective world.simps(6))

lemma only_nodesD:
  "only_nodes w w' \<Longrightarrow> cwd w' = cwd w \<and> refuses w' = refuses w \<and> trace w' = trace w \<and> stdout w' = stdout w"
  unfolding only_nodes_def by (metis world.select_convs(2-5) world.surjective world.update_convs(1))

lemma os_mkdir_only_nodes: "only_nodes w (world_of (os_mkdir p w))"
  by (simp add: os_mkdir_def only_nodes_def split: sum.splits option.splits)

lemma mkdir_exist_ok_only_nodes: "only_nodes w (world_of (mkdir_exist_ok p w))"
  using os_mkdir_only_nodes [of w p]
  by (cases "os_mkdir p w") (simp_all add: mkdir_exist_ok_def)

lemma makedirs_only_nodes: "only_nodes w (world_of (makedirs name w))"
proof (induction name w rule: makedirs.induct)
  case (1 name w)
  show ?case
  proof (cases "makedirs_head name \<noteq> [] \<and> makedirs_tail name \<noteq> []
         \<and> \<not> os_path_exists w (makedirs_head name)")
    case True
    note ih = "1.IH" [OF True]
    show ?thesis
    proof (cases "makedirs (makedirs_head name) w")
      case (Done u w1)
      then have "only_nodes w w1" using ih by simp
      then show ?thesis
        using True Done mkdir_exist_ok_only_nodes [of w1 name]
        by (subst makedirs.simps) (auto intro: only_nodes_trans)
    next
      case (Raised e w1)
      then have "only_nodes w w1" using ih by simp
      then show ?thesis
        using True Raised mkdir_exist_ok_only_nodes [of w1 name]
        by (subst makedirs.simps) (auto intro: only_nodes_trans)
    qed
  next
    case False
    then show ?thesis
      using mkdir_exist_ok_only_nodes [of w name] by (subst makedirs.simps) auto
  qed
qed

lemma sys_open_only_nodes: "only_nodes w (world_of (sys_open p w))"
  by (simp add: sys_open_def only_nodes_def split: sum.splits option.splits)


section \<open>The calls a run issues\<close>

lemma os_makedirs_trace: "trace (world_of (os_makedirs p w)) = trace w @ [Makedirs p]"
  using only_nodesD [OF makedirs_only_nodes [of "logged (Makedirs p) w" p]]
  by (simp add: os_makedirs_def logged_def)

lemma os_makedirs_stdout: "stdout (world_of (os_makedirs p w)) = stdout w"
  using only_nodesD [OF makedirs_only_nodes [of "logged (Makedirs p) w" p]]
  by (simp add: os_makedirs_def logged_def)

lemma open_w_trace: "trace (world_of (open_w p w)) = trace w @ [OpenW p]"
  using only_nodesD [OF sys_open_only_nodes [of "logged (OpenW p) w" p]]
  by (simp add: open_w_def logged_def)

lemma open_w_stdout: "stdout (world_of (open_w p w)) = stdout w"
  using only_nodesD [OF sys_open_only_nodes [of "logged (OpenW p) w" p]]
  by (simp add: open_w_def logged_def)

lemma file_write_trace: "trace (world_of (file_write f c w)) = trace w @ [FileWrite c]"
  by (simp add: file_write_def logged_def Let_def split: option.splits)

lemma file_write_stdout: "stdout (world_of (file_write f c w)) = stdout w"
  by (simp add: file_write_def logged_def Let_def split: option.splits)

lemma create_file_cases:
  obtains
    (makedirs_raised) e w1 where "os_makedirs (os_path_dirname p) w = Raised e w1"
      and "create_file p c w = Raised e w1"
  | (open_raised) w1 e w2 where "os_makedirs (os_path_dirname p) w = Done () w1"
      and "open_w p w1 = Raised e w2" and "create_file p c w = Raised e w2"
  | (write_raised) w1 f w2 e w3 where "os_makedirs (os_path_dirname p) w = Done () w1"
      and "open_w p w1 = Done f w2" and "file_write f c w2 = Raised e w3"
      and "create_file p c w = Raised e w3"
  | (all_done) w1 f w2 w3 where "os_makedirs (os_path_dirname p) w = Done () w1"
      and "open_w p w1 = Done f w2" and "file_write f c w2 = Done () w3"
      and "create_file p c w = Done () w3"
proof (cases "os_makedirs (os_path_dirname p) w")
  case (Raised e w1)
  then show ?thesis using makedirs_raised by (simp add: create_file_def)
next
  case (Done u w1)
  note mk = this
  show ?thesis
  proof (cases "open_w p w1")
    case (Raised e w2)
    then show ?thesis using mk open_raised by (simp add: create_file_def)
  next
    case (Done f w2)
    note op = this
    show ?thesis
    proof (cases "file_write f c w2")
      case (Raised e w3)
      then show ?thesis using mk op write_raised by (simp add: create_file_def)
    next
      case (Done u3 w3)
      then show ?thesis using mk op all_done by (simp add: create_file_def)
    qed
  qed
qed

lemma step_trace_Done:
  "run_step s w = Done u w' \<Longrightarrow> trace w' = trace w @ calls_of_step s"
proof (cases s)
  case (MakedirsStep p)
  assume "run_step s w = Done u w'"
  then show ?thesis using MakedirsStep os_makedirs_trace [of p w] by simp
next
  case (CreateFileStep p c)
  assume r: "run_step s w = Done u w'"
  show ?thesis
  proof (cases p c w rule: create_file_cases)
    case (all_done w1 f w2 w3)
    then show ?thesis
      using r CreateFileStep os_makedirs_trace [of "os_path_dirname p" w] open_w_trace [of p w1]
        file_write_trace [of f c w2]
      by simp
  qed (use r CreateFileStep in simp_all)
qed

lemma step_trace_Raised:
  "run_step s w = Raised e w' \<Longrightarrow>
     \<exists>k. 0 < k \<and> k \<le> length (calls_of_step s) \<and> trace w' = trace w @ take k (calls_of_step s)"
proof (cases s)
  case (MakedirsStep p)
  assume "run_step s w = Raised e w'"
  then have "trace w' = trace w @ take 1 (calls_of_step s)"
    using MakedirsStep os_makedirs_trace [of p w] by simp
  then show ?thesis using MakedirsStep by (intro exI [of _ 1]) simp
next
  case (CreateFileStep p c)
  assume r: "run_step s w = Raised e w'"
  show ?thesis
  proof (cases p c w rule: create_file_cases)
    case (makedirs_raised e1 w1)
    then have "trace w' = trace w @ take 1 (calls_of_step s)"
      using r CreateFileStep os_makedirs_trace [of "os_path_dirname p" w] by simp
    then show ?thesis using CreateFileStep by (intro exI [of _ 1]) simp
  next
    case (open_raised w1 e1 w2)
    then have "trace w' = trace w @ take 2 (calls_of_step s)"
      using r CreateFileStep os_makedirs_trace [of "os_path_dirname p" w] open_w_trace [of p w1]
      by simp
    then show ?thesis using CreateFileStep by (intro exI [of _ 2]) simp
  next
    case (write_raised w1 f w2 e1 w3)
    then have "trace w' = trace w @ take 3 (calls_of_step s)"
      using r CreateFileStep os_makedirs_trace [of "os_path_dirname p" w] open_w_trace [of p w1]
        file_write_trace [of f c w2]
      by simp
    then show ?thesis using CreateFileStep by (intro exI [of _ 3]) simp
  next
    case (all_done w1 f w2 w3)
    then show ?thesis using r CreateFileStep by simp
  qed
qed

lemma step_stdout: "stdout (world_of (run_step s w)) = stdout w"
proof (cases s)
  case (MakedirsStep p)
  then show ?thesis using os_makedirs_stdout [of p w] by simp
next
  case (CreateFileStep p c)
  show ?thesis
  proof (cases p c w rule: create_file_cases)
    case (makedirs_raised e w1)
    then show ?thesis
      using CreateFileStep os_makedirs_stdout [of "os_path_dirname p" w] by simp
  next
    case (open_raised w1 e w2)
    then show ?thesis
      using CreateFileStep os_makedirs_stdout [of "os_path_dirname p" w] open_w_stdout [of p w1]
      by simp
  next
    case (write_raised w1 f w2 e w3)
    then show ?thesis
      using CreateFileStep os_makedirs_stdout [of "os_path_dirname p" w] open_w_stdout [of p w1]
        file_write_stdout [of f c w2]
      by simp
  next
    case (all_done w1 f w2 w3)
    then show ?thesis
      using CreateFileStep os_makedirs_stdout [of "os_path_dirname p" w] open_w_stdout [of p w1]
        file_write_stdout [of f c w2]
      by simp
  qed
qed

lemma steps_stdout: "stdout (world_of (for_each run_step ss w)) = stdout w"
proof (induction ss arbitrary: w)
  case Nil
  show ?case by simp
next
  case (Cons s ss)
  show ?case
  proof (cases "run_step s w")
    case (Done u w1)
    then show ?thesis using Cons.IH [of w1] step_stdout [of s w] by simp
  next
    case (Raised e w1)
    then show ?thesis using step_stdout [of s w] by simp
  qed
qed

lemma steps_trace_Done:
  "for_each run_step ss w = Done u w' \<Longrightarrow> trace w' = trace w @ concat (map calls_of_step ss)"
proof (induction ss arbitrary: w)
  case Nil
  then show ?case by simp
next
  case (Cons s ss)
  from Cons.prems obtain u1 w1 where s: "run_step s w = Done u1 w1"
    and r: "for_each run_step ss w1 = Done u w'"
    by (auto simp: and_then_Done_iff)
  show ?case using step_trace_Done [OF s] Cons.IH [OF r] by simp
qed

text \<open>A run that raises has completed the steps before the failing one and stops in the
  world the failing step has reached.\<close>

lemma steps_Raised_split:
  "for_each run_step ss w = Raised e w' \<Longrightarrow>
     \<exists>before s after wk. ss = before @ s # after
        \<and> for_each run_step before w = Done () wk \<and> run_step s wk = Raised e w'"
proof (induction ss arbitrary: w)
  case Nil
  then show ?case by simp
next
  case (Cons s ss)
  show ?case
  proof (cases "run_step s w")
    case (Raised e1 w1)
    then have "run_step s w = Raised e w'" using Cons.prems by simp
    then have "s # ss = [] @ s # ss \<and> for_each run_step [] w = Done () w
        \<and> run_step s w = Raised e w'" by simp
    then show ?thesis by blast
  next
    case (Done u1 w1)
    then have "for_each run_step ss w1 = Raised e w'" using Cons.prems by simp
    from Cons.IH [OF this] obtain before t after wk where
      "ss = before @ t # after" "for_each run_step before w1 = Done () wk"
      "run_step t wk = Raised e w'" by blast
    then have "s # ss = (s # before) @ t # after
        \<and> for_each run_step (s # before) w = Done () wk \<and> run_step t wk = Raised e w'"
      using Done by simp
    then show ?thesis by blast
  qed
qed

lemma steps_trace_Raised:
  assumes "for_each run_step ss w = Raised e w'"
  shows "\<exists>k. k < length (concat (map calls_of_step ss))
    \<and> trace w' = trace w @ take (Suc k) (concat (map calls_of_step ss))"
proof -
  from steps_Raised_split [OF assms] obtain before s after wk where
    ss: "ss = before @ s # after" and b: "for_each run_step before w = Done () wk"
    and r: "run_step s wk = Raised e w'" by blast
  from step_trace_Raised [OF r] obtain k where k: "0 < k" "k \<le> length (calls_of_step s)"
    "trace w' = trace wk @ take k (calls_of_step s)" by blast
  let ?n = "length (concat (map calls_of_step before))"
  have "trace w' = trace w @ take (?n + k) (concat (map calls_of_step ss))"
    using steps_trace_Done [OF b] k ss by simp
  moreover have "?n + k \<le> length (concat (map calls_of_step ss))" using k ss by simp
  ultimately have "?n + k - 1 < length (concat (map calls_of_step ss))
      \<and> trace w' = trace w @ take (Suc (?n + k - 1)) (concat (map calls_of_step ss))"
    using k by simp
  then show ?thesis by blast
qed


section \<open>Facts about path strings\<close>

lemma split_on_sep_not_Nil: "split_on_sep p \<noteq> []"
  by (induction p) (auto split: list.splits)

lemma split_on_sep_append_sep:
  "split_on_sep (xs @ CHR ''/'' # ys) = split_on_sep xs @ split_on_sep ys"
proof (induction xs)
  case Nil
  show ?case by simp
next
  case (Cons c xs)
  show ?case
  proof (cases "split_on_sep xs")
    case Nil
    then show ?thesis using split_on_sep_not_Nil [of xs] by simp
  next
    case (Cons x rest)
    then show ?thesis using Cons.IH by simp
  qed
qed

lemma split_on_sep_no_sep: "CHR ''/'' \<notin> set t \<Longrightarrow> split_on_sep t = [t]"
  by (induction t) auto

lemma components_append_sep:
  "components (xs @ CHR ''/'' # ys) = components xs @ components ys"
  by (simp add: components_def split_on_sep_append_sep)

lemma components_no_sep:
  "CHR ''/'' \<notin> set t \<Longrightarrow> components t = (if t = [] then [] else [t])"
  by (simp add: components_def split_on_sep_no_sep)

lemma components_Nil: "components [] = []"
  by (simp add: components_def)

lemma components_snoc_sep: "components (xs @ ''/'') = components xs"
  using components_append_sep [of xs "[]"] by (simp add: components_Nil)

lemma components_rstrip_sep: "components (rstrip_sep s) = components s"
proof (induction s rule: rev_induct)
  case Nil
  show ?case by (simp add: rstrip_sep_def)
next
  case (snoc c s)
  show ?case
  proof (cases "c = CHR ''/''")
    case True
    then have "rstrip_sep (s @ [c]) = rstrip_sep s" by (simp add: rstrip_sep_def)
    then show ?thesis using snoc.IH True components_snoc_sep [of s] by simp
  next
    case False
    then show ?thesis by (simp add: rstrip_sep_def)
  qed
qed

lemma components_all_sep: "list_all (\<lambda>c. c = CHR ''/'') s \<Longrightarrow> components s = []"
proof (induction s rule: rev_induct)
  case Nil
  show ?case by (simp add: components_Nil)
next
  case (snoc c s)
  then show ?case using components_snoc_sep [of s] by simp
qed

lemma rstrip_sep_prefix: "\<exists>r. s = rstrip_sep s @ r"
proof -
  have "rev s = takeWhile (\<lambda>c. c = CHR ''/'') (rev s) @ dropWhile (\<lambda>c. c = CHR ''/'') (rev s)"
    by simp
  then have "s = rev (dropWhile (\<lambda>c. c = CHR ''/'') (rev s))
      @ rev (takeWhile (\<lambda>c. c = CHR ''/'') (rev s))"
    by (metis rev_append rev_rev_ident)
  then show ?thesis unfolding rstrip_sep_def by blast
qed

lemma rstrip_sep_last:
  "rstrip_sep s \<noteq> [] \<Longrightarrow> last (rstrip_sep s) \<noteq> CHR ''/''"
proof -
  assume a: "rstrip_sep s \<noteq> []"
  then have d: "dropWhile (\<lambda>c. c = CHR ''/'') (rev s) \<noteq> []"
    by (simp add: rstrip_sep_def)
  then have "hd (dropWhile (\<lambda>c. c = CHR ''/'') (rev s)) \<noteq> CHR ''/''"
    using hd_dropWhile [of "\<lambda>c. c = CHR ''/''" "rev s"] by simp
  then show ?thesis using d by (simp add: rstrip_sep_def last_rev)
qed

lemma rstrip_sep_Nil_iff: "rstrip_sep s = [] \<longleftrightarrow> list_all (\<lambda>c. c = CHR ''/'') s"
  by (auto simp: rstrip_sep_def list_all_iff dropWhile_eq_Nil_conv)

text \<open>The two halves \<^verbatim>\<open>os.path.split\<close> cuts a path into, before the head is stripped.\<close>

lemma cut_append:
  "rev (dropWhile (\<lambda>c. c \<noteq> CHR ''/'') (rev p)) @ rev (takeWhile (\<lambda>c. c \<noteq> CHR ''/'') (rev p)) = p"
proof -
  have "rev p = takeWhile (\<lambda>c. c \<noteq> CHR ''/'') (rev p) @ dropWhile (\<lambda>c. c \<noteq> CHR ''/'') (rev p)"
    by simp
  then show ?thesis by (metis rev_append rev_rev_ident)
qed

lemma cut_tail_no_sep: "CHR ''/'' \<notin> set (rev (takeWhile (\<lambda>c. c \<noteq> CHR ''/'') (rev p)))"
  using set_takeWhileD [of "CHR ''/''" "\<lambda>c. c \<noteq> CHR ''/''" "rev p"] by auto

lemma cut_head_last:
  "rev (dropWhile (\<lambda>c. c \<noteq> CHR ''/'') (rev p)) \<noteq> [] \<Longrightarrow>
     last (rev (dropWhile (\<lambda>c. c \<noteq> CHR ''/'') (rev p))) = CHR ''/''"
  using hd_dropWhile [of "\<lambda>c. c \<noteq> CHR ''/''" "rev p"] by (simp add: last_rev)

lemma split_fst:
  "fst (os_path_split p) =
     (if rev (dropWhile (\<lambda>c. c \<noteq> CHR ''/'') (rev p)) \<noteq> []
         \<and> \<not> list_all (\<lambda>c. c = CHR ''/'') (rev (dropWhile (\<lambda>c. c \<noteq> CHR ''/'') (rev p)))
      then rstrip_sep (rev (dropWhile (\<lambda>c. c \<noteq> CHR ''/'') (rev p)))
      else rev (dropWhile (\<lambda>c. c \<noteq> CHR ''/'') (rev p)))"
  by (simp only: os_path_split_def Let_def fst_conv)

lemma split_snd: "snd (os_path_split p) = rev (takeWhile (\<lambda>c. c \<noteq> CHR ''/'') (rev p))"
  by (simp only: os_path_split_def Let_def snd_conv)

lemma split_tail_no_sep: "CHR ''/'' \<notin> set (snd (os_path_split p))"
  by (metis cut_tail_no_sep split_snd)

lemma components_cut:
  "components p = components (rev (dropWhile (\<lambda>c. c \<noteq> CHR ''/'') (rev p)))
     @ components (rev (takeWhile (\<lambda>c. c \<noteq> CHR ''/'') (rev p)))"
proof (cases "rev (dropWhile (\<lambda>c. c \<noteq> CHR ''/'') (rev p)) = []")
  case True
  then show ?thesis by (metis append_Nil components_Nil cut_append)
next
  case False
  let ?h = "rev (dropWhile (\<lambda>c. c \<noteq> CHR ''/'') (rev p))"
  let ?t = "rev (takeWhile (\<lambda>c. c \<noteq> CHR ''/'') (rev p))"
  from False cut_head_last [OF False] obtain h0 where h: "?h = h0 @ ''/''"
    by (metis append_butlast_last_id)
  have "p = h0 @ CHR ''/'' # ?t" using cut_append [of p] h by simp
  then have "components p = components h0 @ components ?t"
    using components_append_sep [of h0 ?t] by simp
  moreover have "components ?h = components h0" using h components_snoc_sep [of h0] by simp
  ultimately show ?thesis by simp
qed

lemma components_split:
  "components p = components (fst (os_path_split p))
     @ (if snd (os_path_split p) = [] then [] else [snd (os_path_split p)])"
proof -
  let ?h = "rev (dropWhile (\<lambda>c. c \<noteq> CHR ''/'') (rev p))"
  let ?t = "rev (takeWhile (\<lambda>c. c \<noteq> CHR ''/'') (rev p))"
  have "components (fst (os_path_split p)) = components ?h"
    by (metis components_rstrip_sep split_fst)
  moreover have "snd (os_path_split p) = ?t" by (rule split_snd)
  moreover have "components ?t = (if ?t = [] then [] else [?t])"
    using components_no_sep [OF cut_tail_no_sep [of p]] .
  ultimately show ?thesis using components_cut [of p] by simp
qed

lemma split_head_prefix: "\<exists>r. p = fst (os_path_split p) @ r"
proof -
  let ?h = "rev (dropWhile (\<lambda>c. c \<noteq> CHR ''/'') (rev p))"
  obtain r1 where r1: "p = ?h @ r1" using cut_append [of p] by metis
  obtain r2 where r2: "?h = rstrip_sep ?h @ r2" using rstrip_sep_prefix [of ?h] by blast
  have "fst (os_path_split p) = ?h \<or> fst (os_path_split p) = rstrip_sep ?h"
    using split_fst [of p] by metis
  then show ?thesis
  proof
    assume "fst (os_path_split p) = ?h"
    then show ?thesis using r1 by metis
  next
    assume "fst (os_path_split p) = rstrip_sep ?h"
    then have "p = fst (os_path_split p) @ (r2 @ r1)" using r1 r2 by (metis append.assoc)
    then show ?thesis by blast
  qed
qed

lemma split_head_is_abs:
  "fst (os_path_split p) \<noteq> [] \<Longrightarrow> is_abs (fst (os_path_split p)) = is_abs p"
proof -
  assume a: "fst (os_path_split p) \<noteq> []"
  obtain r where "p = fst (os_path_split p) @ r" using split_head_prefix [of p] by blast
  then have "p \<noteq> [] \<and> hd p = hd (fst (os_path_split p))" using a by (metis append_is_Nil_conv hd_append2)
  then show ?thesis using a by (simp add: is_abs_def)
qed

lemma split_head_ends_with_sep:
  "ends_with_sep (fst (os_path_split p)) \<Longrightarrow> components (fst (os_path_split p)) = []"
proof -
  let ?h = "rev (dropWhile (\<lambda>c. c \<noteq> CHR ''/'') (rev p))"
  assume a: "ends_with_sep (fst (os_path_split p))"
  show ?thesis
  proof (cases "?h \<noteq> [] \<and> \<not> list_all (\<lambda>c. c = CHR ''/'') ?h")
    case True
    then have f: "fst (os_path_split p) = rstrip_sep ?h" using split_fst [of p] by metis
    then have "rstrip_sep ?h \<noteq> []" using a by (simp add: ends_with_sep_def)
    from rstrip_sep_last [OF this] show ?thesis using a f by (simp add: ends_with_sep_def)
  next
    case False
    then have f: "fst (os_path_split p) = ?h" using split_fst [of p] by metis
    then have "?h \<noteq> []" using a by (auto simp: ends_with_sep_def)
    then have "list_all (\<lambda>c. c = CHR ''/'') ?h" using False by blast
    from components_all_sep [OF this] show ?thesis using f by simp
  qed
qed

lemma split_tail_Nil_head:
  "snd (os_path_split p) = [] \<Longrightarrow> fst (os_path_split p) \<noteq> [] \<Longrightarrow>
     ends_with_sep (fst (os_path_split p)) \<or> snd (os_path_split (fst (os_path_split p))) \<noteq> []"
proof -
  assume "snd (os_path_split p) = []" and ne: "fst (os_path_split p) \<noteq> []"
  let ?q = "fst (os_path_split p)"
  show ?thesis
  proof (cases "last ?q = CHR ''/''")
    case True
    then show ?thesis using ne by (simp add: ends_with_sep_def)
  next
    case False
    then have "hd (rev ?q) \<noteq> CHR ''/''" using ne by (simp add: hd_rev)
    then have "takeWhile (\<lambda>c. c \<noteq> CHR ''/'') (rev ?q) \<noteq> []"
      using ne by (cases "rev ?q") auto
    then show ?thesis by (simp only: split_snd rev_is_Nil_conv simp_thms)
  qed
qed

lemma dirname_Nil_iff: "os_path_dirname p = [] \<longleftrightarrow> CHR ''/'' \<notin> set p"
proof
  assume a: "os_path_dirname p = []"
  let ?h = "rev (dropWhile (\<lambda>c. c \<noteq> CHR ''/'') (rev p))"
  from a have f: "fst (os_path_split p) = []" by (simp only: os_path_dirname_def)
  have "?h = []"
  proof (rule ccontr)
    assume ne: "?h \<noteq> []"
    show False
    proof (cases "list_all (\<lambda>c. c = CHR ''/'') ?h")
      case True
      then have "fst (os_path_split p) = ?h" using split_fst [of p] by metis
      then show False using f ne by metis
    next
      case False
      then have "fst (os_path_split p) = rstrip_sep ?h" using ne split_fst [of p] by metis
      then have "rstrip_sep ?h = []" using f by metis
      then show False using False rstrip_sep_Nil_iff by blast
    qed
  qed
  then have "p = rev (takeWhile (\<lambda>c. c \<noteq> CHR ''/'') (rev p))"
    by (metis append_Nil cut_append)
  then show "CHR ''/'' \<notin> set p" using cut_tail_no_sep [of p] by metis
next
  assume "CHR ''/'' \<notin> set p"
  then have "dropWhile (\<lambda>c. c \<noteq> CHR ''/'') (rev p) = []" by (auto simp: dropWhile_eq_Nil_conv)
  then have "rev (dropWhile (\<lambda>c. c \<noteq> CHR ''/'') (rev p)) = []" by (simp only: rev.simps)
  then have "fst (os_path_split p) = []" using split_fst [of p] by metis
  then show "os_path_dirname p = []" by (simp only: os_path_dirname_def)
qed

lemma join_has_sep: "a \<noteq> [] \<Longrightarrow> CHR ''/'' \<in> set (os_path_join a b)"
proof -
  assume a: "a \<noteq> []"
  show ?thesis
  proof (cases "b \<noteq> [] \<and> hd b = CHR ''/''")
    case True
    then show ?thesis by (cases b) (auto simp: os_path_join_def)
  next
    case False
    note nb = this
    show ?thesis
    proof (cases "last a = CHR ''/''")
      case True
      then have "CHR ''/'' \<in> set a" using a last_in_set by metis
      then show ?thesis using nb by (auto simp: os_path_join_def)
    next
      case False
      then show ?thesis using a nb by (auto simp: os_path_join_def)
    qed
  qed
qed

text \<open>What \<^verbatim>\<open>os.makedirs\<close> splits off is the last name of the path.\<close>

lemma makedirs_tail_components:
  "makedirs_tail name \<noteq> [] \<Longrightarrow>
     components name = components (makedirs_head name) @ [makedirs_tail name]"
  using components_split [of name] components_split [of "fst (os_path_split name)"]
  by (simp add: makedirs_head_def makedirs_tail_def split: if_splits)

lemma makedirs_tail_Nil: "makedirs_tail name = [] \<Longrightarrow> components name = []"
proof -
  assume a: "makedirs_tail name = []"
  let ?q = "fst (os_path_split name)"
  from a have s1: "snd (os_path_split name) = []" and s2: "snd (os_path_split ?q) = []"
    by (simp_all add: makedirs_tail_def split: if_splits)
  have c: "components name = components ?q" using components_split [of name] s1 by simp
  show ?thesis
  proof (cases "?q = []")
    case True
    then show ?thesis using c by (simp add: components_Nil)
  next
    case False
    from split_tail_Nil_head [OF s1 False] s2 have "ends_with_sep ?q" by blast
    from split_head_ends_with_sep [OF this] show ?thesis using c by simp
  qed
qed

lemma makedirs_head_is_abs:
  "makedirs_head name \<noteq> [] \<Longrightarrow> is_abs (makedirs_head name) = is_abs name"
proof -
  assume a: "makedirs_head name \<noteq> []"
  show ?thesis
  proof (cases "snd (os_path_split name) = []")
    case False
    then show ?thesis using a split_head_is_abs [of name] by (simp add: makedirs_head_def)
  next
    case True
    let ?q = "fst (os_path_split name)"
    from True a have h: "makedirs_head name = fst (os_path_split ?q)"
      by (simp add: makedirs_head_def)
    then have "?q \<noteq> []" using a split_head_prefix [of ?q] by auto
    then show ?thesis
      using a h split_head_is_abs [of name] split_head_is_abs [of ?q] by simp
  qed
qed

lemma makedirs_head_ends_with_sep:
  "ends_with_sep (makedirs_head name) \<Longrightarrow> components (makedirs_head name) = []"
  using split_head_ends_with_sep [of name] split_head_ends_with_sep [of "fst (os_path_split name)"]
  by (simp add: makedirs_head_def split: if_splits)


section \<open>Path resolution\<close>

lemma walk_append:
  "walk fs s (xs @ ys) = (case walk fs s xs of Inl e \<Rightarrow> Inl e | Inr l \<Rightarrow> walk fs l ys)"
  by (induction xs arbitrary: s) (auto split: option.splits node.splits)

lemma walk_append_Inr:
  "walk fs s (xs @ ys) = Inr l \<longleftrightarrow> (\<exists>m. walk fs s xs = Inr m \<and> walk fs m ys = Inr l)"
  by (simp add: walk_append split: sum.splits)

lemma walk_single:
  "walk fs l [c] = Inr m \<longleftrightarrow>
     node_at fs l = Some Dir
     \<and> m = (if c = ''.'' then l else if c = ''..'' then butlast l else l @ [c])"
  by (auto split: option.splits node.splits)

lemma node_at_dirs_kept: "dirs_kept fs fs' \<Longrightarrow> node_at fs l = Some Dir \<Longrightarrow> node_at fs' l = Some Dir"
  by (auto simp: dirs_kept_def node_at_def split: if_splits)

lemma walk_mono: "dirs_kept fs fs' \<Longrightarrow> walk fs s cs = Inr l \<Longrightarrow> walk fs' s cs = Inr l"
proof (induction cs arbitrary: s)
  case Nil
  then show ?case by simp
next
  case (Cons c cs)
  from Cons.prems(2) have d: "node_at fs s = Some Dir"
    by (auto split: option.splits node.splits)
  then have d': "node_at fs' s = Some Dir" using node_at_dirs_kept [OF Cons.prems(1)] by blast
  from Cons.prems(2) d
  have "walk fs (if c = ''.'' then s else if c = ''..'' then butlast s else s @ [c]) cs = Inr l"
    by simp
  from Cons.IH [OF Cons.prems(1) this] d' show ?case by simp
qed

lemma walk_plain: "plain_names cs \<Longrightarrow> walk fs s cs = Inr l \<Longrightarrow> l = s @ cs"
proof (induction cs arbitrary: s)
  case Nil
  then show ?case by simp
next
  case (Cons c cs)
  from Cons.prems have "walk fs (s @ [c]) cs = Inr l"
    by (auto simp: plain_names_def split: option.splits node.splits)
  moreover have "plain_names cs" using Cons.prems(1) by (simp add: plain_names_def)
  ultimately have "l = (s @ [c]) @ cs" using Cons.IH by blast
  then show ?case by simp
qed

lemma dirs_kept_refl: "dirs_kept fs fs"
  by (simp add: dirs_kept_def)

lemma adds_dirs_refl: "adds_dirs fs fs"
  by (simp add: adds_dirs_def)

lemma adds_dirs_trans: "adds_dirs fs fs1 \<Longrightarrow> adds_dirs fs1 fs2 \<Longrightarrow> adds_dirs fs fs2"
  unfolding adds_dirs_def by (metis option.distinct(1))

lemma adds_dirs_dirs_kept: "adds_dirs fs fs' \<Longrightarrow> dirs_kept fs fs'"
  unfolding adds_dirs_def dirs_kept_def by (metis option.distinct(1))

lemma adds_dirs_files_kept: "adds_dirs fs fs' \<Longrightarrow> files_kept fs fs'"
  unfolding adds_dirs_def files_kept_def by (metis option.distinct(1))

lemma adds_dirs_upd: "fs l = None \<Longrightarrow> adds_dirs fs (fs(l \<mapsto> Dir))"
  by (simp add: adds_dirs_def)


section \<open>What a path names\<close>

lemma os_stat_Some:
  assumes "os_stat w p = Some n"
  shows "p \<noteq> [] \<and> (\<exists>l. walk (nodes w) (start_of w p) (components p) = Inr l
            \<and> node_at (nodes w) l = Some n
            \<and> (ends_with_sep p \<and> components p \<noteq> [] \<longrightarrow> n = Dir))"
proof -
  from assms have ne: "p \<noteq> []" by (auto simp: os_stat_def split: if_splits)
  let ?x = "if ends_with_sep p \<and> components p \<noteq> [] then [''.''] else []"
  from assms ne obtain l where w: "walk (nodes w) (start_of w p) (components p @ ?x) = Inr l"
    and n: "node_at (nodes w) l = Some n"
    by (auto simp: os_stat_def split: sum.splits)
  show ?thesis
  proof (cases "ends_with_sep p \<and> components p \<noteq> []")
    case False
    then show ?thesis using ne w n by auto
  next
    case True
    then have "walk (nodes w) (start_of w p) (components p @ [''.'']) = Inr l" using w by simp
    then obtain m where m: "walk (nodes w) (start_of w p) (components p) = Inr m"
      and s: "walk (nodes w) m [''.''] = Inr l"
      unfolding walk_append_Inr by blast
    from s have "node_at (nodes w) m = Some Dir \<and> l = m" unfolding walk_single by simp
    then show ?thesis using ne m n by auto
  qed
qed

lemma os_stat_dirI:
  assumes "p \<noteq> []" and "walk (nodes w) (start_of w p) (components p) = Inr l"
    and "node_at (nodes w) l = Some Dir"
  shows "os_stat w p = Some Dir"
proof -
  have "walk (nodes w) (start_of w p) (components p @ [''.'']) = Inr l"
    unfolding walk_append_Inr walk_single using assms(2,3) by simp
  then show ?thesis using assms by (simp add: os_stat_def)
qed

lemma os_stat_plainI:
  assumes "p \<noteq> []" and "\<not> (ends_with_sep p \<and> components p \<noteq> [])"
    and "walk (nodes w) (start_of w p) (components p) = Inr l"
  shows "os_stat w p = node_at (nodes w) l"
proof -
  have "(if ends_with_sep p \<and> components p \<noteq> [] then [''.''] else []) = []"
    using assms(2) by simp
  then show ?thesis using assms(1,3) by (simp only: os_stat_def append_Nil2 if_False sum.case)
qed

lemma os_stat_cong:
  "nodes w' = nodes w \<Longrightarrow> cwd w' = cwd w \<Longrightarrow> os_stat w' p = os_stat w p"
  by (simp add: os_stat_def start_of_def split: sum.splits)

lemma os_stat_logged: "os_stat (logged c w) p = os_stat w p"
  by (rule os_stat_cong) (simp_all add: logged_def)

lemma isdir_mono:
  assumes "os_path_isdir w p" and "dirs_kept (nodes w) (nodes w')" and "cwd w' = cwd w"
  shows "os_path_isdir w' p"
proof -
  from assms(1) have s: "os_stat w p = Some Dir" by (simp add: os_path_isdir_def)
  from os_stat_Some [OF s] obtain l where ne: "p \<noteq> []"
    and w: "walk (nodes w) (start_of w p) (components p) = Inr l"
    and n: "node_at (nodes w) l = Some Dir" by blast
  have st: "start_of w' p = start_of w p" using assms(3) by (simp add: start_of_def)
  have "walk (nodes w') (start_of w' p) (components p) = Inr l"
    using walk_mono [OF assms(2) w] st by simp
  moreover have "node_at (nodes w') l = Some Dir" using node_at_dirs_kept [OF assms(2) n] .
  ultimately show ?thesis using os_stat_dirI [OF ne] by (simp add: os_path_isdir_def)
qed


section \<open>Making directories\<close>

lemma os_mkdir_Raised: "os_mkdir p w = Raised e w' \<Longrightarrow> w' = w"
  by (auto simp: os_mkdir_def split: if_splits sum.splits option.splits)

lemma os_mkdir_Done:
  assumes "os_mkdir p w = Done u w'"
  shows "\<exists>l. p \<noteq> [] \<and> walk (nodes w) (start_of w p) (components p) = Inr l
           \<and> node_at (nodes w) l = None \<and> refuses w (ReqMkdir l) (nodes w) = None
           \<and> w' = w\<lparr>nodes := (nodes w)(l \<mapsto> Dir)\<rparr>"
  using assms by (auto simp: os_mkdir_def split: if_splits sum.splits option.splits)

lemma node_at_None: "node_at fs l = None \<Longrightarrow> l \<noteq> [] \<and> fs l = None"
  by (auto simp: node_at_def split: if_splits)

lemma mkdir_exist_ok_adds: "adds_dirs (nodes w) (nodes (world_of (mkdir_exist_ok p w)))"
proof (cases "os_mkdir p w")
  case (Done u w1)
  from os_mkdir_Done [OF Done] obtain l where "node_at (nodes w) l = None"
    and "w1 = w\<lparr>nodes := (nodes w)(l \<mapsto> Dir)\<rparr>" by blast
  then show ?thesis using Done adds_dirs_upd [of "nodes w" l] node_at_None [of "nodes w" l]
    by (simp add: mkdir_exist_ok_def)
next
  case (Raised e w1)
  then show ?thesis using os_mkdir_Raised [OF Raised]
    by (simp add: mkdir_exist_ok_def adds_dirs_refl)
qed

lemma mkdir_exist_ok_Done_isdir:
  assumes "mkdir_exist_ok p w = Done u w'"
  shows "os_path_isdir w' p"
proof (cases "os_mkdir p w")
  case (Raised e w1)
  then show ?thesis using assms by (simp add: mkdir_exist_ok_def split: if_splits)
next
  case (Done u1 w1)
  then have w1: "w1 = w'" using assms by (simp add: mkdir_exist_ok_def)
  from os_mkdir_Done [OF Done] obtain l where ne: "p \<noteq> []"
    and wk: "walk (nodes w) (start_of w p) (components p) = Inr l"
    and n: "node_at (nodes w) l = None"
    and w': "w' = w\<lparr>nodes := (nodes w)(l \<mapsto> Dir)\<rparr>" using w1 by blast
  from node_at_None [OF n] have l: "l \<noteq> []" "nodes w l = None" by simp_all
  have k: "dirs_kept (nodes w) (nodes w')"
    using adds_dirs_dirs_kept [OF adds_dirs_upd [of "nodes w" l]] l(2) w' by simp
  have st: "start_of w' p = start_of w p" using w' by (simp add: start_of_def)
  have "walk (nodes w') (start_of w' p) (components p) = Inr l"
    using walk_mono [OF k wk] st by simp
  moreover have "node_at (nodes w') l = Some Dir" using l w' by (simp add: node_at_def)
  ultimately show ?thesis using os_stat_dirI [OF ne] by (simp add: os_path_isdir_def)
qed

lemma makedirs_adds: "adds_dirs (nodes w) (nodes (world_of (makedirs name w)))"
proof (induction name w rule: makedirs.induct)
  case (1 name w)
  show ?case
  proof (cases "makedirs_head name \<noteq> [] \<and> makedirs_tail name \<noteq> []
         \<and> \<not> os_path_exists w (makedirs_head name)")
    case True
    note ih = "1.IH" [OF True]
    show ?thesis
    proof (cases "makedirs (makedirs_head name) w")
      case (Done u w1)
      then have "adds_dirs (nodes w) (nodes w1)" using ih by simp
      then show ?thesis
        using True Done mkdir_exist_ok_adds [of w1 name]
        by (subst makedirs.simps) (auto intro: adds_dirs_trans)
    next
      case (Raised e w1)
      then have "adds_dirs (nodes w) (nodes w1)" using ih by simp
      then show ?thesis
        using True Raised mkdir_exist_ok_adds [of w1 name]
        by (subst makedirs.simps) (auto intro: adds_dirs_trans)
    qed
  next
    case False
    then show ?thesis
      using mkdir_exist_ok_adds [of w name] by (subst makedirs.simps) auto
  qed
qed

text \<open>When \<^verbatim>\<open>os.makedirs\<close> returns, the path is a directory (the one exception of the
  library code, a path ending in the name \<open>.\<close>, is excluded).\<close>

lemma makedirs_Done_isdir:
  assumes "makedirs name w = Done u w'" and "makedirs_tail name \<noteq> ''.''"
  shows "os_path_isdir w' name"
proof (cases "makedirs_head name \<noteq> [] \<and> makedirs_tail name \<noteq> []
         \<and> \<not> os_path_exists w (makedirs_head name)")
  case False
  then have "mkdir_exist_ok name w = Done u w'" using assms(1) by (subst (asm) makedirs.simps) auto
  then show ?thesis by (rule mkdir_exist_ok_Done_isdir)
next
  case True
  show ?thesis
  proof (cases "makedirs (makedirs_head name) w")
    case (Done u1 w1)
    then have "mkdir_exist_ok name w1 = Done u w'"
      using True assms by (subst (asm) makedirs.simps) auto
    then show ?thesis by (rule mkdir_exist_ok_Done_isdir)
  next
    case (Raised e w1)
    then have "mkdir_exist_ok name w1 = Done u w'"
      using True assms by (subst (asm) makedirs.simps) (auto split: if_splits)
    then show ?thesis by (rule mkdir_exist_ok_Done_isdir)
  qed
qed

lemma isdir_exists_head:
  assumes "os_path_isdir w name" and "makedirs_head name \<noteq> []" and "makedirs_tail name \<noteq> []"
  shows "os_path_exists w (makedirs_head name)"
proof -
  let ?h = "makedirs_head name"
  from assms(1) have "os_stat w name = Some Dir" by (simp add: os_path_isdir_def)
  from os_stat_Some [OF this] obtain l where
    wk: "walk (nodes w) (start_of w name) (components name) = Inr l" by blast
  have c: "components name = components ?h @ [makedirs_tail name]"
    using makedirs_tail_components [OF assms(3)] .
  from wk obtain m where m: "walk (nodes w) (start_of w name) (components ?h) = Inr m"
    and s: "walk (nodes w) m [makedirs_tail name] = Inr l"
    unfolding c walk_append_Inr by blast
  from s have d: "node_at (nodes w) m = Some Dir" unfolding walk_single by simp
  have st: "start_of w ?h = start_of w name"
    using makedirs_head_is_abs [OF assms(2)] by (simp add: start_of_def)
  have "os_stat w ?h = Some Dir"
    using os_stat_dirI [OF assms(2), of w m] m d st by simp
  then show ?thesis by (simp add: os_path_exists_def)
qed

text \<open>On a path that is a directory already, \<^verbatim>\<open>os.makedirs\<close> changes nothing.\<close>

lemma makedirs_noop:
  assumes "os_path_isdir w name"
  shows "makedirs name w = Done () w"
proof -
  have "\<not> (makedirs_head name \<noteq> [] \<and> makedirs_tail name \<noteq> []
         \<and> \<not> os_path_exists w (makedirs_head name))"
    using isdir_exists_head [OF assms] by blast
  then have m: "makedirs name w = mkdir_exist_ok name w" by (subst makedirs.simps) auto
  from assms have "os_stat w name = Some Dir" by (simp add: os_path_isdir_def)
  from os_stat_Some [OF this] obtain l where ne: "name \<noteq> []"
    and wk: "walk (nodes w) (start_of w name) (components name) = Inr l"
    and n: "node_at (nodes w) l = Some Dir" by blast
  have "os_mkdir name w = Raised FileExistsError w"
    using ne wk n by (simp add: os_mkdir_def)
  then show ?thesis using m assms by (simp add: mkdir_exist_ok_def)
qed


section \<open>The calls of the script\<close>

lemma program_steps_cases:
  assumes "s \<in> set program_steps"
  obtains "s = MakedirsStep base_dir"
  | e where "s = MakedirsStep (os_path_join base_dir e)"
  | e c where "s = CreateFileStep (os_path_join base_dir e) c"
  using assms
  by (auto simp: program_steps_def dir_step_def file_step_def default_step_def)

lemma base_dir_not_Nil: "base_dir \<noteq> []"
  by (simp add: base_dir_def)

lemma join_base_dir_dirname: "os_path_dirname (os_path_join base_dir e) \<noteq> []"
  using join_has_sep [OF base_dir_not_Nil, of e] by (simp add: dirname_Nil_iff)

lemma join_base_dir_not_Nil: "os_path_join base_dir e \<noteq> []"
  using join_has_sep [OF base_dir_not_Nil, of e] by auto

lemma cds_calls_Done:
  assumes "create_directory_structure w = Done u w'"
  shows "calls_made w (create_directory_structure w) = program_calls"
  using steps_trace_Done [of program_steps w u w'] assms
  by (simp add: cds_steps calls_made_def program_calls_def)

lemma cds_calls_Raised:
  assumes "create_directory_structure w = Raised e w'"
  shows "\<exists>k. k < length program_calls
    \<and> calls_made w (create_directory_structure w) = take (Suc k) program_calls"
proof -
  from assms have "for_each run_step program_steps w = Raised e w'" by (simp add: cds_steps)
  from steps_trace_Raised [OF this] obtain k where k: "k < length program_calls"
    and t: "trace w' = trace w @ take (Suc k) program_calls"
    unfolding program_calls_def by blast
  have "calls_made w (create_directory_structure w) = take (Suc k) program_calls"
    using assms t by (simp add: calls_made_def)
  then show ?thesis using k by blast
qed

lemma cds_calls_subset: "set (calls_made w (create_directory_structure w)) \<subseteq> set program_calls"
proof (cases "create_directory_structure w")
  case (Done u w')
  then show ?thesis using cds_calls_Done [OF Done] by simp
next
  case (Raised e w')
  from cds_calls_Raised [OF Raised] obtain k where
    "calls_made w (create_directory_structure w) = take (Suc k) program_calls" by blast
  then show ?thesis using set_take_subset [of "Suc k" program_calls] by simp
qed

lemma program_calls_Makedirs:
  assumes "Makedirs q \<in> set program_calls"
  shows "q \<noteq> []"
proof -
  from assms obtain s where s: "s \<in> set program_steps" and q: "Makedirs q \<in> set (calls_of_step s)"
    by (auto simp: program_calls_def)
  from s show ?thesis
  proof (cases rule: program_steps_cases)
    case 1
    then show ?thesis using q base_dir_not_Nil by simp
  next
    case (2 e)
    then show ?thesis using q join_base_dir_not_Nil [of e] by simp
  next
    case (3 e c)
    then show ?thesis using q join_base_dir_dirname [of e] by simp
  qed
qed

lemma makedirs_Nil: "makedirs [] w = Raised FileNotFoundError w"
proof -
  have "makedirs_head [] = []" by (simp add: makedirs_head_def os_path_split_def)
  then have "makedirs [] w = mkdir_exist_ok [] w" by (subst makedirs.simps) simp
  then show ?thesis
    by (simp add: mkdir_exist_ok_def os_mkdir_def os_path_isdir_def os_stat_def)
qed


section \<open>Library calls and the tree\<close>

lemma logged_simps:
  "nodes (logged c w) = nodes w" "cwd (logged c w) = cwd w" "refuses (logged c w) = refuses w"
  "stdout (logged c w) = stdout w" "trace (logged c w) = trace w @ [c]"
  by (simp_all add: logged_def)

lemma start_of_logged: "start_of (logged c w) p = start_of w p"
  by (simp add: start_of_def logged_simps)

lemma os_path_isdir_logged: "os_path_isdir (logged c w) p = os_path_isdir w p"
  by (simp add: os_path_isdir_def os_stat_logged)

lemma os_makedirs_adds: "adds_dirs (nodes w) (nodes (world_of (os_makedirs p w)))"
  using makedirs_adds [of "logged (Makedirs p) w" p] by (simp add: os_makedirs_def logged_simps)

lemma os_makedirs_frame:
  "cwd (world_of (os_makedirs p w)) = cwd w \<and> refuses (world_of (os_makedirs p w)) = refuses w"
  using only_nodesD [OF makedirs_only_nodes [of "logged (Makedirs p) w" p]]
  by (simp add: os_makedirs_def logged_simps)

lemma os_makedirs_Done_isdir:
  "os_makedirs p w = Done u w' \<Longrightarrow> makedirs_tail p \<noteq> ''.'' \<Longrightarrow> os_path_isdir w' p"
  unfolding os_makedirs_def by (rule makedirs_Done_isdir)

lemma os_makedirs_noop:
  "os_path_isdir w p \<Longrightarrow> os_makedirs p w = Done () (logged (Makedirs p) w)"
  unfolding os_makedirs_def by (rule makedirs_noop) (simp add: os_path_isdir_logged)

lemma sys_open_Raised: "sys_open p w = Raised e w' \<Longrightarrow> w' = w"
  by (auto simp: sys_open_def split: if_splits sum.splits option.splits)

lemma sys_open_Done:
  assumes "sys_open p w = Done l w'"
  shows "p \<noteq> [] \<and> \<not> ends_with_sep p \<and> components p \<noteq> []
    \<and> walk (nodes w) (start_of w p) (components p) = Inr l
    \<and> node_at (nodes w) l \<noteq> Some Dir \<and> refuses w (ReqOpen l) (nodes w) = None
    \<and> w' = w\<lparr>nodes := (nodes w)(l \<mapsto> File [])\<rparr>"
  using assms by (auto simp: sys_open_def split: if_splits sum.splits option.splits)

lemma sys_open_DoneI:
  assumes "p \<noteq> []" and "\<not> ends_with_sep p" and "components p \<noteq> []"
    and "last (components p) \<noteq> ''.''" and "last (components p) \<noteq> ''..''"
    and "walk (nodes w) (start_of w p) (components p) = Inr l"
    and "node_at (nodes w) l \<noteq> Some Dir" and "refuses w (ReqOpen l) (nodes w) = None"
  shows "sys_open p w = Done l (w\<lparr>nodes := (nodes w)(l \<mapsto> File [])\<rparr>)"
  using assms by (simp add: sys_open_def)

lemma open_w_Raised: "open_w p w = Raised e w' \<Longrightarrow> w' = logged (OpenW p) w"
  unfolding open_w_def by (rule sys_open_Raised)

lemma open_w_Done:
  assumes "open_w p w = Done l w'"
  shows "p \<noteq> [] \<and> \<not> ends_with_sep p \<and> components p \<noteq> []
    \<and> walk (nodes w) (start_of w p) (components p) = Inr l
    \<and> node_at (nodes w) l \<noteq> Some Dir
    \<and> nodes w' = (nodes w)(l \<mapsto> File []) \<and> cwd w' = cwd w \<and> refuses w' = refuses w"
  using sys_open_Done [OF assms [unfolded open_w_def]]
  by (simp add: logged_simps start_of_logged)

lemma file_write_Nil: "file_write f [] w = Done () (logged (FileWrite []) w)"
  by (simp add: file_write_def)

lemma file_write_Done:
  assumes "file_write f c w = Done u w'"
  shows "nodes w' = (if c = [] then nodes w else (nodes w)(f \<mapsto> File c))
    \<and> cwd w' = cwd w \<and> refuses w' = refuses w"
  using assms by (auto simp: file_write_def Let_def logged_simps split: if_splits option.splits)

lemma file_write_Raised:
  assumes "file_write f c w = Raised e w'"
  shows "c \<noteq> [] \<and> w' = logged (FileWrite c) w"
  using assms by (auto simp: file_write_def Let_def split: if_splits option.splits)

lemma not_Dir_upd_dirs_kept: "l \<noteq> [] \<Longrightarrow> node_at fs l \<noteq> Some Dir \<Longrightarrow> dirs_kept fs (fs(l \<mapsto> File x))"
  by (auto simp: dirs_kept_def node_at_def)


section \<open>Nothing is lost\<close>

lemma kept_refl: "kept w w"
  by (simp add: kept_def dirs_kept_def)

lemma kept_trans: "kept w w1 \<Longrightarrow> kept w1 w2 \<Longrightarrow> kept w w2"
  unfolding kept_def dirs_kept_def by (metis (no_types, lifting))

lemma adds_dirs_kept:
  "adds_dirs (nodes w) (nodes w') \<Longrightarrow> cwd w' = cwd w \<Longrightarrow> refuses w' = refuses w \<Longrightarrow> kept w w'"
  using adds_dirs_dirs_kept [of "nodes w" "nodes w'"] adds_dirs_files_kept [of "nodes w" "nodes w'"]
  by (simp add: kept_def files_kept_def)

lemma kept_isdir: "kept w w' \<Longrightarrow> os_path_isdir w p \<Longrightarrow> os_path_isdir w' p"
  using isdir_mono [of w p w'] by (simp add: kept_def)

lemma kept_read_empty:
  assumes "kept w w'" and "read_file w p = Some []"
  shows "read_file w' p = Some []"
proof -
  from assms(2) have s: "os_stat w p = Some (File [])"
    by (auto simp: read_file_def split: option.splits node.splits)
  from os_stat_Some [OF s] obtain l where ne: "p \<noteq> []"
    and wk: "walk (nodes w) (start_of w p) (components p) = Inr l"
    and n: "node_at (nodes w) l = Some (File [])"
    and ns: "\<not> (ends_with_sep p \<and> components p \<noteq> [])" by auto
  from n have l: "l \<noteq> []" "nodes w l = Some (File [])"
    by (auto simp: node_at_def split: if_splits)
  have k: "dirs_kept (nodes w) (nodes w')" and c: "cwd w' = cwd w"
    using assms(1) by (simp_all add: kept_def)
  have "nodes w' l = Some (File [])" using assms(1) l(2) unfolding kept_def by blast
  then have n': "node_at (nodes w') l = Some (File [])" using l(1) by (simp add: node_at_def)
  have "start_of w' p = start_of w p" using c by (simp add: start_of_def)
  then have wk': "walk (nodes w') (start_of w' p) (components p) = Inr l"
    using walk_mono [OF k wk] by simp
  have "os_stat w' p = Some (File [])"
    using os_stat_plainI [OF ne ns wk'] n' by simp
  then show ?thesis by (simp add: read_file_def)
qed


section \<open>Steps on well-shaped paths\<close>

lemma dotless_plain: "list_all dotless cs \<Longrightarrow> plain_names cs"
  by (induction cs) (auto simp: plain_names_def dotless_def)

lemma dotless_not_dot: "dotless c \<Longrightarrow> c \<noteq> ''.'' \<and> c \<noteq> ''..''"
  by (auto simp: dotless_def)

lemma dir_path_ok_tail: "dir_path_ok p \<Longrightarrow> makedirs_tail p \<noteq> ''.''"
proof
  assume ok: "dir_path_ok p" and t: "makedirs_tail p = ''.''"
  then have "components p = components (makedirs_head p) @ [''.'']"
    using makedirs_tail_components [of p] by simp
  then have "dotless ''.''" using ok by (simp add: dir_path_ok_def dir_names_ok_def)
  then show False by (simp add: dotless_def)
qed

lemma split_tail_not_Nil: "p \<noteq> [] \<Longrightarrow> \<not> ends_with_sep p \<Longrightarrow> snd (os_path_split p) \<noteq> []"
proof -
  assume ne: "p \<noteq> []" and "\<not> ends_with_sep p"
  then have "hd (rev p) \<noteq> CHR ''/''" by (simp add: ends_with_sep_def hd_rev)
  then have "takeWhile (\<lambda>c. c \<noteq> CHR ''/'') (rev p) \<noteq> []" using ne by (cases "rev p") auto
  then show ?thesis by (simp only: split_snd rev_is_Nil_conv simp_thms)
qed

lemma file_path_ok_dirname:
  assumes "file_path_ok p"
  shows "components (os_path_dirname p) = butlast (components p)"
    and "dir_path_ok (os_path_dirname p)"
proof -
  from assms have ne: "p \<noteq> []" and ns: "\<not> ends_with_sep p" and na: "\<not> is_abs p"
    and f: "file_names_ok (components p)" by (simp_all add: file_path_ok_def)
  have "components p = components (os_path_dirname p) @ [snd (os_path_split p)]"
    using components_split [of p] split_tail_not_Nil [OF ne ns]
    by (simp add: os_path_dirname_def)
  then show c: "components (os_path_dirname p) = butlast (components p)" by simp
  then have d: "dir_names_ok (components (os_path_dirname p))"
    using f by (simp add: file_names_ok_def)
  then have n: "os_path_dirname p \<noteq> []" by (auto simp: dir_names_ok_def components_Nil)
  then have "\<not> is_abs (os_path_dirname p)"
    using split_head_is_abs [of p] na by (simp add: os_path_dirname_def)
  then show "dir_path_ok (os_path_dirname p)" using d n by (simp add: dir_path_ok_def)
qed

text \<open>When \<open>create_file\<close> returns, the file holds the content, whatever was there before.\<close>

lemma create_file_Done:
  assumes "create_file p c w = Done u w'"
  shows "\<exists>w1 l. os_makedirs (os_path_dirname p) w = Done () w1
    \<and> p \<noteq> [] \<and> \<not> ends_with_sep p
    \<and> walk (nodes w1) (start_of w1 p) (components p) = Inr l
    \<and> l \<noteq> [] \<and> node_at (nodes w1) l \<noteq> Some Dir
    \<and> nodes w' = (nodes w1)(l \<mapsto> File c) \<and> cwd w' = cwd w1 \<and> refuses w' = refuses w1"
proof (cases p c w rule: create_file_cases)
  case (all_done w1 f w2 w3)
  from open_w_Done [OF all_done(2)] have o: "p \<noteq> []" "\<not> ends_with_sep p"
    "walk (nodes w1) (start_of w1 p) (components p) = Inr f"
    "node_at (nodes w1) f \<noteq> Some Dir" "nodes w2 = (nodes w1)(f \<mapsto> File [])"
    "cwd w2 = cwd w1" "refuses w2 = refuses w1" by simp_all
  from o(4) have f: "f \<noteq> []" by (auto simp: node_at_def)
  from file_write_Done [OF all_done(3)] o(5,6,7)
  have "nodes w3 = (nodes w1)(f \<mapsto> File c)" "cwd w3 = cwd w1" "refuses w3 = refuses w1"
    by (auto split: if_splits)
  moreover have "w3 = w'" using assms all_done(4) by simp
  ultimately show ?thesis using all_done(1) o f by blast
qed (use assms in simp_all)

lemma create_file_Done_read:
  assumes "create_file p c w = Done u w'"
  shows "read_file w' p = Some c"
proof -
  from create_file_Done [OF assms] obtain w1 l where ne: "p \<noteq> []" and ns: "\<not> ends_with_sep p"
    and wk: "walk (nodes w1) (start_of w1 p) (components p) = Inr l"
    and l: "l \<noteq> []" "node_at (nodes w1) l \<noteq> Some Dir"
    and n: "nodes w' = (nodes w1)(l \<mapsto> File c)" and c: "cwd w' = cwd w1" by blast
  have k: "dirs_kept (nodes w1) (nodes w')" using not_Dir_upd_dirs_kept [OF l] n by simp
  have "start_of w' p = start_of w1 p" using c by (simp add: start_of_def)
  then have wk': "walk (nodes w') (start_of w' p) (components p) = Inr l"
    using walk_mono [OF k wk] by simp
  have "node_at (nodes w') l = Some (File c)" using l(1) n by (simp add: node_at_def)
  then have "os_stat w' p = Some (File c)" using os_stat_plainI [OF ne _ wk'] ns by simp
  then show ?thesis by (simp add: read_file_def)
qed

lemma create_file_Done_dir:
  assumes "create_file p c w = Done u w'" and "makedirs_tail (os_path_dirname p) \<noteq> ''.''"
  shows "os_path_isdir w' (os_path_dirname p)"
proof -
  from create_file_Done [OF assms(1)] obtain w1 l where
    m: "os_makedirs (os_path_dirname p) w = Done () w1"
    and l: "l \<noteq> []" "node_at (nodes w1) l \<noteq> Some Dir"
    and n: "nodes w' = (nodes w1)(l \<mapsto> File c)" and c: "cwd w' = cwd w1" by blast
  have k: "dirs_kept (nodes w1) (nodes w')" using not_Dir_upd_dirs_kept [OF l] n by simp
  from os_makedirs_Done_isdir [OF m assms(2)] show ?thesis using isdir_mono [OF _ k c] by blast
qed

lemma step_establishes:
  assumes "step_ok s" and "run_step s w = Done u w'"
  shows "step_post s w'"
proof (cases s)
  case (MakedirsStep p)
  then show ?thesis
    using assms os_makedirs_Done_isdir [of p w u w'] dir_path_ok_tail [of p] by simp
next
  case (CreateFileStep p c)
  then have ok: "file_path_ok p" and r: "create_file p c w = Done u w'" using assms by simp_all
  have "makedirs_tail (os_path_dirname p) \<noteq> ''.''"
    using dir_path_ok_tail [OF file_path_ok_dirname(2) [OF ok]] .
  from create_file_Done_dir [OF r this] create_file_Done_read [OF r] show ?thesis
    using CreateFileStep by simp
qed

lemma os_makedirs_kept: "kept w (world_of (os_makedirs p w))"
  using os_makedirs_adds [of w p] os_makedirs_frame [of p w] by (simp add: adds_dirs_kept)

lemma kept_logged: "kept w (logged c w)"
  by (simp add: kept_def logged_simps dirs_kept_def)

lemma create_file_empty_kept: "kept w (world_of (create_file p [] w))"
proof (cases p "[] :: string" w rule: create_file_cases)
  case (makedirs_raised e w1)
  then show ?thesis using os_makedirs_kept [of w "os_path_dirname p"] by simp
next
  case (open_raised w1 e w2)
  from open_w_Raised [OF open_raised(2)] have "kept w1 w2" by (simp add: kept_logged)
  moreover have "kept w w1" using os_makedirs_kept [of w "os_path_dirname p"] open_raised(1) by simp
  ultimately show ?thesis using open_raised(3) kept_trans by simp
next
  case (write_raised w1 f w2 e w3)
  then show ?thesis using file_write_Raised [of f "[]" w2 e w3] by simp
next
  case (all_done w1 f w2 w3)
  from create_file_Done [OF all_done(4)] all_done(1) obtain l where
    l: "l \<noteq> []" "node_at (nodes w1) l \<noteq> Some Dir"
    and n: "nodes w3 = (nodes w1)(l \<mapsto> File [])" and c: "cwd w3 = cwd w1"
    and r: "refuses w3 = refuses w1" by auto
  have "kept w1 w3"
    using not_Dir_upd_dirs_kept [OF l, of "[]"] n c r by (auto simp: kept_def)
  moreover have "kept w w1" using os_makedirs_kept [of w "os_path_dirname p"] all_done(1) by simp
  ultimately show ?thesis using all_done(4) kept_trans by simp
qed

lemma run_step_kept: "step_ok s \<Longrightarrow> kept w (world_of (run_step s w))"
  by (cases s) (simp_all add: os_makedirs_kept create_file_empty_kept)

lemma steps_kept: "list_all step_ok ss \<Longrightarrow> kept w (world_of (for_each run_step ss w))"
proof (induction ss arbitrary: w)
  case Nil
  show ?case by (simp add: kept_refl)
next
  case (Cons s ss)
  then have s: "step_ok s" and ss: "list_all step_ok ss" by simp_all
  show ?case
  proof (cases "run_step s w")
    case (Raised e w1)
    then show ?thesis using run_step_kept [OF s, of w] by simp
  next
    case (Done u w1)
    then have "kept w w1" using run_step_kept [OF s, of w] by simp
    then show ?thesis using Cons.IH [OF ss, of w1] Done kept_trans by simp
  qed
qed

lemma post_kept:
  assumes "step_ok t" and "step_post t w" and "kept w w'"
  shows "step_post t w'"
proof (cases t)
  case (MakedirsStep p)
  then show ?thesis using assms kept_isdir by simp
next
  case (CreateFileStep p c)
  then show ?thesis using assms kept_isdir kept_read_empty by simp
qed

text \<open>After a run without error every step still holds what it has brought about.\<close>

lemma steps_post:
  "list_all step_ok ss \<Longrightarrow> for_each run_step ss w = Done u w' \<Longrightarrow> list_all (\<lambda>s. step_post s w') ss"
proof (induction ss arbitrary: w)
  case Nil
  show ?case by simp
next
  case (Cons s ss)
  then have s: "step_ok s" and ss: "list_all step_ok ss" by simp_all
  from Cons.prems(2) obtain u1 w1 where r: "run_step s w = Done u1 w1"
    and rest: "for_each run_step ss w1 = Done u w'" by (auto simp: and_then_Done_iff)
  have "kept w1 w'" using steps_kept [OF ss, of w1] rest by simp
  from post_kept [OF s step_establishes [OF s r] this] Cons.IH [OF ss rest]
  show ?case by simp
qed


text \<open>Every step of the script has a path of this shape.\<close>

lemma program_steps_ok: "list_all step_ok program_steps"
  by code_simp


section \<open>Worlds in which the script cannot fail\<close>

lemma tidy_logged: "tidy (logged c w) = tidy w"
  by (simp add: tidy_def logged_simps)

lemma tidy_empty_world: "tidy empty_world"
  by (simp add: tidy_def empty_world_def node_at_def)

lemma tidy_mkdir:
  assumes td: "tidy w" and ne: "name \<noteq> []" and na: "\<not> is_abs name"
    and c: "components name = hs @ [t]" and t: "dotless t"
    and wk: "walk (nodes w) (cwd w) hs = Inr m" and d: "node_at (nodes w) m = Some Dir"
  shows "\<exists>w'. mkdir_exist_ok name w = Done () w' \<and> tidy w' \<and> cwd w' = cwd w"
proof -
  let ?l = "m @ [t]"
  have tn: "t \<noteq> ''.''" "t \<noteq> ''..''" using dotless_not_dot [OF t] by simp_all
  have st: "start_of w name = cwd w" using na by (simp add: start_of_def)
  have wl: "walk (nodes w) (start_of w name) (components name) = Inr ?l"
    unfolding c st walk_append_Inr walk_single using wk d tn by simp
  have lc: "last (components name) = t" "components name \<noteq> []" using c by simp_all
  show ?thesis
  proof (cases "node_at (nodes w) ?l")
    case None
    then have n: "nodes w ?l = None" by (simp add: node_at_def)
    let ?w' = "w\<lparr>nodes := (nodes w)(?l \<mapsto> Dir)\<rparr>"
    have r: "refuses w (ReqMkdir ?l) (nodes w) = None" using td by (simp add: tidy_def)
    have "os_mkdir name w = Done () ?w'"
      using ne wl lc tn None r by (simp add: os_mkdir_def)
    then have "mkdir_exist_ok name w = Done () ?w'" by (simp add: mkdir_exist_ok_def)
    moreover have "tidy ?w'"
      using td t n unfolding tidy_def node_at_def by (auto split: if_splits)
    ultimately show ?thesis by auto
  next
    case (Some nd)
    show ?thesis
    proof (cases nd)
      case Dir
      then have "os_mkdir name w = Raised FileExistsError w"
        using ne wl Some by (simp add: os_mkdir_def)
      moreover have "os_path_isdir w name"
        using os_stat_dirI [OF ne wl] Some Dir by (simp add: os_path_isdir_def)
      ultimately have "mkdir_exist_ok name w = Done () w" by (simp add: mkdir_exist_ok_def)
      then show ?thesis using td by auto
    next
      case (File x)
      then have "nodes w ?l = Some (File x)" using Some by (simp add: node_at_def)
      then have "\<not> dotless (last ?l)" using td unfolding tidy_def by blast
      then show ?thesis using t by simp
    qed
  qed
qed

lemma tidy_makedirs:
  "tidy w \<Longrightarrow> dir_path_ok name \<Longrightarrow> \<exists>w'. makedirs name w = Done () w' \<and> tidy w' \<and> cwd w' = cwd w"
proof (induction name w rule: makedirs.induct)
  case (1 name w)
  let ?h = "makedirs_head name"
  let ?t = "makedirs_tail name"
  from "1.prems" have td: "tidy w" and ne: "name \<noteq> []" and na: "\<not> is_abs name"
    and cn: "components name \<noteq> []" and dl: "list_all dotless (components name)"
    by (simp_all add: dir_path_ok_def dir_names_ok_def)
  have tne: "?t \<noteq> []" using makedirs_tail_Nil [of name] cn by blast
  have c: "components name = components ?h @ [?t]" using makedirs_tail_components [OF tne] .
  have t: "dotless ?t" and hd: "list_all dotless (components ?h)" using dl c by simp_all
  have tn: "?t \<noteq> ''.''" using dotless_not_dot [OF t] by simp
  have cw: "node_at (nodes w) (cwd w) = Some Dir" using td by (simp add: tidy_def)
  have rel: "?h \<noteq> [] \<Longrightarrow> start_of v ?h = cwd v" for v
    using makedirs_head_is_abs [of name] na by (simp add: start_of_def)
  show ?case
  proof (cases "?h \<noteq> [] \<and> ?t \<noteq> [] \<and> \<not> os_path_exists w ?h")
    case True
    then have hne: "?h \<noteq> []" and nex: "\<not> os_path_exists w ?h" by simp_all
    have "components ?h \<noteq> []"
    proof
      assume e: "components ?h = []"
      have "os_stat w ?h = Some Dir"
        using os_stat_dirI [OF hne, of w "cwd w"] e rel [OF hne, of w] cw by simp
      then show False using nex by (simp add: os_path_exists_def)
    qed
    then have "dir_path_ok ?h"
      using hne hd makedirs_head_is_abs [OF hne] na by (simp add: dir_path_ok_def dir_names_ok_def)
    from "1.IH" [OF True td this] obtain w1 where m: "makedirs ?h w = Done () w1"
      and td1: "tidy w1" and c1: "cwd w1 = cwd w" by blast
    have "os_path_isdir w1 ?h"
      using makedirs_Done_isdir [OF m dir_path_ok_tail [OF \<open>dir_path_ok ?h\<close>]] .
    then have "os_stat w1 ?h = Some Dir" by (simp add: os_path_isdir_def)
    from os_stat_Some [OF this] obtain k where
      "walk (nodes w1) (start_of w1 ?h) (components ?h) = Inr k"
      "node_at (nodes w1) k = Some Dir" by blast
    then have "walk (nodes w1) (cwd w1) (components ?h) = Inr k" using rel [OF hne, of w1] by simp
    from tidy_mkdir [OF td1 ne na c t this \<open>node_at (nodes w1) k = Some Dir\<close>]
    obtain w' where "mkdir_exist_ok name w1 = Done () w'" "tidy w'" "cwd w' = cwd w1" by blast
    moreover have "makedirs name w = mkdir_exist_ok name w1"
      using True m tn by (subst makedirs.simps) simp
    ultimately show ?thesis using c1 by auto
  next
    case False
    then have m: "makedirs name w = mkdir_exist_ok name w" by (subst makedirs.simps) auto
    have "\<exists>k. walk (nodes w) (cwd w) (components ?h) = Inr k \<and> node_at (nodes w) k = Some Dir"
    proof (cases "?h = []")
      case True
      then show ?thesis using cw by (simp add: components_Nil)
    next
      case hne: False
      then have "os_path_exists w ?h" using False tne by blast
      then obtain n where "os_stat w ?h = Some n" by (auto simp: os_path_exists_def)
      from os_stat_Some [OF this] obtain k where
        wk: "walk (nodes w) (cwd w) (components ?h) = Inr k" and n: "node_at (nodes w) k = Some n"
        using rel [OF hne, of w] by auto
      have k: "k = cwd w @ components ?h" using walk_plain [OF dotless_plain [OF hd] wk] .
      have "n = Dir"
      proof (cases n)
        case (File x)
        show ?thesis
        proof (cases "components ?h = []")
          case True
          then show ?thesis using k n cw File by simp
        next
          case False
          then have "k \<noteq> []" "last k = last (components ?h)" using k by simp_all
          moreover have "dotless (last (components ?h))"
            using hd False by (simp add: list_all_iff)
          moreover have "nodes w k = Some (File x)"
            using n File \<open>k \<noteq> []\<close> by (simp add: node_at_def)
          ultimately show ?thesis using td unfolding tidy_def by metis
        qed
      qed simp
      then show ?thesis using wk n by blast
    qed
    then obtain k where "walk (nodes w) (cwd w) (components ?h) = Inr k"
      "node_at (nodes w) k = Some Dir" by blast
    from tidy_mkdir [OF td ne na c t this] show ?thesis using m by simp
  qed
qed

lemma tidy_create_file:
  assumes td: "tidy w" and ok: "file_path_ok p"
  shows "\<exists>w'. create_file p c w = Done () w' \<and> tidy w'"
proof -
  let ?d = "os_path_dirname p"
  from ok have ne: "p \<noteq> []" and ns: "\<not> ends_with_sep p" and na: "\<not> is_abs p"
    and f: "file_names_ok (components p)" by (simp_all add: file_path_ok_def)
  note dn = file_path_ok_dirname [OF ok]
  from tidy_makedirs [OF _ dn(2), of "logged (Makedirs ?d) w"] td
  obtain w1 where m: "os_makedirs ?d w = Done () w1" and td1: "tidy w1"
    unfolding os_makedirs_def tidy_logged by blast
  have "os_path_isdir w1 ?d" using os_makedirs_Done_isdir [OF m dir_path_ok_tail [OF dn(2)]] .
  then have "os_stat w1 ?d = Some Dir" by (simp add: os_path_isdir_def)
  from os_stat_Some [OF this] obtain k where
    wk: "walk (nodes w1) (start_of w1 ?d) (butlast (components p)) = Inr k"
    and kd: "node_at (nodes w1) k = Some Dir" using dn(1) by auto
  have "\<not> is_abs ?d" using dn(2) by (simp add: dir_path_ok_def)
  then have st: "start_of w1 ?d = start_of w1 p" using na by (simp add: start_of_def)
  let ?f = "last (components p)"
  let ?l = "k @ [?f]"
  have cp: "components p = butlast (components p) @ [?f]" "components p \<noteq> []"
    using f by (simp_all add: file_names_ok_def)
  have fn: "?f \<noteq> ''.''" "?f \<noteq> ''..''" "\<not> dotless ?f" using f by (simp_all add: file_names_ok_def)
  let ?v = "logged (OpenW p) w1"
  have "walk (nodes w1) (start_of w1 p) (butlast (components p) @ [?f]) = Inr ?l"
    unfolding walk_append_Inr walk_single using wk kd fn st by simp
  then have wl: "walk (nodes ?v) (start_of ?v p) (components p) = Inr ?l"
    using cp(1) by (simp add: logged_simps start_of_logged)
  have nd: "node_at (nodes ?v) ?l \<noteq> Some Dir"
  proof
    assume "node_at (nodes ?v) ?l = Some Dir"
    then have "nodes w1 ?l = Some Dir" by (simp add: node_at_def logged_simps)
    then have "dotless (last ?l)" using td1 unfolding tidy_def by blast
    then show False using fn by simp
  qed
  have rf: "refuses ?v (ReqOpen ?l) (nodes ?v) = None"
    using td1 by (simp add: tidy_def logged_simps)
  let ?w2 = "?v\<lparr>nodes := (nodes ?v)(?l \<mapsto> File [])\<rparr>"
  have o: "open_w p w1 = Done ?l ?w2"
    unfolding open_w_def using sys_open_DoneI [OF ne ns cp(2) fn(1,2) wl nd rf] .
  have td2: "tidy ?w2"
    using td1 fn(3) nd unfolding tidy_def node_at_def logged_simps
    by (auto simp: logged_def split: if_splits)
  have "\<exists>w3. file_write ?l c ?w2 = Done () w3 \<and> tidy w3"
  proof (cases "c = []")
    case True
    then show ?thesis using td2 by (simp add: file_write_Nil tidy_logged)
  next
    case False
    let ?u = "logged (FileWrite c) ?w2"
    have "refuses ?u (ReqWrite ?l c) (nodes ?u) = None" using td2 by (simp add: tidy_def logged_simps)
    then have "file_write ?l c ?w2 = Done () (?u\<lparr>nodes := (nodes ?u)(?l \<mapsto> File c)\<rparr>)"
      using False by (simp add: file_write_def Let_def)
    moreover have "tidy (?u\<lparr>nodes := (nodes ?u)(?l \<mapsto> File c)\<rparr>)"
      using td2 fn(3) unfolding tidy_def node_at_def
      by (auto simp: logged_def split: if_splits)
    ultimately show ?thesis by simp
  qed
  then show ?thesis using m o by (auto simp: create_file_def)
qed

lemma tidy_step: "tidy w \<Longrightarrow> step_ok s \<Longrightarrow> \<exists>w'. run_step s w = Done () w' \<and> tidy w'"
proof (cases s)
  case (MakedirsStep p)
  assume "tidy w" "step_ok s"
  then show ?thesis
    using MakedirsStep tidy_makedirs [of "logged (Makedirs p) w" p]
    by (auto simp: os_makedirs_def tidy_logged)
next
  case (CreateFileStep p c)
  assume "tidy w" "step_ok s"
  then show ?thesis using CreateFileStep tidy_create_file [of w p c] by simp
qed

lemma tidy_steps:
  "tidy w \<Longrightarrow> list_all step_ok ss \<Longrightarrow> \<exists>w'. for_each run_step ss w = Done () w' \<and> tidy w'"
proof (induction ss arbitrary: w)
  case Nil
  then show ?case by simp
next
  case (Cons s ss)
  from tidy_step [OF Cons.prems(1), of s] Cons.prems(2) obtain w1 where
    "run_step s w = Done () w1" "tidy w1" by auto
  moreover from Cons.IH [OF this(2)] Cons.prems(2) obtain w' where
    "for_each run_step ss w1 = Done () w'" "tidy w'" by auto
  ultimately show ?case by simp
qed


lemma cds_Done_posts:
  assumes "create_directory_structure w = Done u w'"
  shows "\<forall>s \<in> set program_steps. step_post s w'"
  using steps_post [OF program_steps_ok, of w u w'] assms
  by (simp add: cds_steps list_all_iff)

lemma cds_tidy: "tidy w \<Longrightarrow> \<exists>w'. create_directory_structure w = Done () w' \<and> tidy w'"
  using tidy_steps [OF _ program_steps_ok, of w] by (simp add: cds_steps)

lemma docs_dirname:
  "os_path_dirname (os_path_join base_dir ''docs/API.md'') = os_path_join base_dir ''docs''"
  by code_simp


section \<open>A run that fails\<close>

lemma readme_dirname:
  "os_path_dirname (os_path_join base_dir ''README.md'') = base_dir"
  by code_simp

lemma clash_world_root: "os_path_isdir clash_world base_dir"
  by (simp add: os_path_isdir_def os_stat_def clash_world_def base_dir_def start_of_def is_abs_def
      ends_with_sep_def components_def node_at_def)

lemma clash_world_open:
  assumes "nodes v = nodes clash_world" and "cwd v = cwd clash_world"
  shows "sys_open (os_path_join base_dir ''README.md'') v = Raised IsADirectoryError v"
  using assms
  by (simp add: sys_open_def os_path_join_def clash_world_def base_dir_def start_of_def is_abs_def
      ends_with_sep_def components_def node_at_def)

lemma clash_world_run:
  "create_directory_structure clash_world
     = Raised IsADirectoryError
         (clash_world\<lparr>trace := [Makedirs base_dir, Makedirs base_dir,
                                 OpenW (os_path_join base_dir ''README.md'')]\<rparr>)"
proof -
  let ?p = "os_path_join base_dir ''README.md''"
  let ?w1 = "logged (Makedirs base_dir) clash_world"
  let ?w2 = "logged (Makedirs base_dir) ?w1"
  let ?w3 = "logged (OpenW ?p) ?w2"
  have s1: "os_makedirs base_dir clash_world = Done () ?w1"
    using os_makedirs_noop [OF clash_world_root] .
  have "os_path_isdir ?w1 base_dir" using clash_world_root by (simp add: os_path_isdir_logged)
  then have s2: "os_makedirs (os_path_dirname ?p) ?w1 = Done () ?w2"
    using os_makedirs_noop [of ?w1 base_dir] by (simp add: readme_dirname)
  have s3: "open_w ?p ?w2 = Raised IsADirectoryError ?w3"
    unfolding open_w_def by (rule clash_world_open) (simp_all add: logged_simps)
  have cf: "create_file ?p default_content ?w1 = Raised IsADirectoryError ?w3"
    by (simp add: create_file_def s2 s3)
  obtain rest where ps: "program_steps = MakedirsStep base_dir # CreateFileStep ?p default_content # rest"
    by (simp add: program_steps_def root_files_def default_step_def)
  have "for_each run_step program_steps clash_world = Raised IsADirectoryError ?w3"
    unfolding ps by (simp add: s1 cf)
  moreover have "?w3 = clash_world\<lparr>trace := [Makedirs base_dir, Makedirs base_dir, OpenW ?p]\<rparr>"
    by (simp add: logged_def clash_world_def)
  ultimately show ?thesis by (simp add: cds_steps)
qed


section \<open>Running the script again\<close>

lemma read_file_Some:
  assumes "read_file w p = Some x"
  shows "p \<noteq> [] \<and> \<not> (ends_with_sep p \<and> components p \<noteq> [])
    \<and> (\<exists>l. l \<noteq> [] \<and> walk (nodes w) (start_of w p) (components p) = Inr l
           \<and> nodes w l = Some (File x))"
proof -
  from assms have s: "os_stat w p = Some (File x)"
    by (auto simp: read_file_def split: option.splits node.splits)
  from os_stat_Some [OF s] obtain l where "p \<noteq> []"
    "walk (nodes w) (start_of w p) (components p) = Inr l"
    "node_at (nodes w) l = Some (File x)"
    "\<not> (ends_with_sep p \<and> components p \<noteq> [])" by auto
  moreover from this(3) have "l \<noteq> []" "nodes w l = Some (File x)"
    by (auto simp: node_at_def split: if_splits)
  ultimately show ?thesis by blast
qed

lemma step_post_cong:
  "nodes w' = nodes w \<Longrightarrow> cwd w' = cwd w \<Longrightarrow> step_post s w' = step_post s w"
proof -
  assume "nodes w' = nodes w" "cwd w' = cwd w"
  then have "os_stat w' q = os_stat w q" for q by (rule os_stat_cong)
  then show ?thesis by (cases s) (simp_all add: os_path_isdir_def read_file_def)
qed

lemma rerun_step:
  assumes ok: "step_ok s" and post: "step_post s w"
  shows "rerun_ok w (run_step s w)"
proof (cases s)
  case (MakedirsStep p)
  then show ?thesis using post os_makedirs_noop [of w p] by (simp add: rerun_ok_def logged_simps)
next
  case (CreateFileStep p c)
  then have fo: "file_path_ok p" and c: "c = []" using ok by simp_all
  from post CreateFileStep c have d: "os_path_isdir w (os_path_dirname p)"
    and rd: "read_file w p = Some []" by simp_all
  let ?w1 = "logged (Makedirs (os_path_dirname p)) w"
  let ?v = "logged (OpenW p) ?w1"
  have m: "os_makedirs (os_path_dirname p) w = Done () ?w1" using os_makedirs_noop [OF d] .
  from read_file_Some [OF rd] obtain l where l: "l \<noteq> []"
    and wk: "walk (nodes w) (start_of w p) (components p) = Inr l"
    and n: "nodes w l = Some (File [])" by blast
  from fo have p: "p \<noteq> []" "\<not> ends_with_sep p" "components p \<noteq> []"
    "last (components p) \<noteq> ''.''" "last (components p) \<noteq> ''..''"
    by (simp_all add: file_path_ok_def file_names_ok_def)
  have wv: "walk (nodes ?v) (start_of ?v p) (components p) = Inr l"
    using wk by (simp add: logged_simps start_of_logged)
  have nv: "node_at (nodes ?v) l \<noteq> Some Dir" using l n by (simp add: node_at_def logged_simps)
  show ?thesis
  proof (cases "refuses w (ReqOpen l) (nodes w)")
    case None
    then have "refuses ?v (ReqOpen l) (nodes ?v) = None" by (simp add: logged_simps)
    from sys_open_DoneI [OF p wv nv this]
    have "open_w p ?w1 = Done l (?v\<lparr>nodes := (nodes ?v)(l \<mapsto> File [])\<rparr>)"
      by (simp add: open_w_def)
    moreover have "(nodes ?v)(l \<mapsto> File []) = nodes w" using n by (auto simp: logged_simps)
    ultimately have "create_file p [] w
        = Done () (logged (FileWrite []) (?v\<lparr>nodes := nodes w\<rparr>))"
      using m by (simp add: create_file_def file_write_Nil)
    then show ?thesis using CreateFileStep c by (simp add: rerun_ok_def logged_simps)
  next
    case (Some e)
    then have "refuses ?v (ReqOpen l) (nodes ?v) = Some e" by (simp add: logged_simps)
    then have "sys_open p ?v = Raised e ?v" using p wv nv by (simp add: sys_open_def)
    then have "create_file p [] w = Raised e ?v" using m by (simp add: create_file_def open_w_def)
    moreover have "\<exists>l. refuses w (ReqOpen l) (nodes w) = Some e" using Some by blast
    ultimately show ?thesis using CreateFileStep c by (simp add: rerun_ok_def logged_simps)
  qed
qed

lemma rerun_steps:
  "list_all step_ok ss \<Longrightarrow> list_all (\<lambda>s. step_post s w) ss \<Longrightarrow> rerun_ok w (for_each run_step ss w)"
proof (induction ss arbitrary: w)
  case Nil
  show ?case by (simp add: rerun_ok_def)
next
  case (Cons s ss)
  then have ok: "step_ok s" "list_all step_ok ss" and post: "step_post s w"
    "list_all (\<lambda>s. step_post s w) ss" by simp_all
  note r = rerun_step [OF ok(1) post(1)]
  show ?case
  proof (cases "run_step s w")
    case (Raised e w1)
    then show ?thesis using r by (simp add: rerun_ok_def)
  next
    case (Done u w1)
    then have same: "nodes w1 = nodes w" "cwd w1 = cwd w" "refuses w1 = refuses w"
      using r by (simp_all add: rerun_ok_def)
    have "list_all (\<lambda>s. step_post s w1) ss"
      using post(2) step_post_cong [OF same(1,2)] by (simp add: list_all_iff)
    from Cons.IH [OF ok(2) this] have "rerun_ok w1 (for_each run_step ss w1)" .
    then have "rerun_ok w (for_each run_step ss w1)"
      using same by (cases "for_each run_step ss w1") (simp_all add: rerun_ok_def)
    then show ?thesis using Done by simp
  qed
qed

lemma cds_rerun:
  assumes "create_directory_structure w = Done u w1"
  shows "rerun_ok w1 (create_directory_structure w1)"
  using rerun_steps [OF program_steps_ok, of w1] cds_Done_posts [OF assms]
  by (simp add: cds_steps list_all_iff)


section \<open>A file changed between two runs\<close>

lemma edit_file_read:
  assumes "read_file w p = Some y"
  shows "read_file (edit_file p x w) p = Some x"
proof -
  from read_file_Some [OF assms] obtain l where ne: "p \<noteq> []"
    and ns: "\<not> (ends_with_sep p \<and> components p \<noteq> [])" and l: "l \<noteq> []"
    and wk: "walk (nodes w) (start_of w p) (components p) = Inr l"
    and n: "nodes w l = Some (File y)" by blast
  let ?w' = "w\<lparr>nodes := (nodes w)(l \<mapsto> File x)\<rparr>"
  have e: "edit_file p x w = ?w'" using wk n l by (simp add: edit_file_def node_at_def)
  have "node_at (nodes w) l \<noteq> Some Dir" using n l by (simp add: node_at_def)
  from not_Dir_upd_dirs_kept [OF l this, of x] have k: "dirs_kept (nodes w) (nodes ?w')" by simp
  have "start_of ?w' p = start_of w p" by (simp add: start_of_def)
  then have wk': "walk (nodes ?w') (start_of ?w' p) (components p) = Inr l"
    using walk_mono [OF k wk] by simp
  have "node_at (nodes ?w') l = Some (File x)" using l by (simp add: node_at_def)
  then have "os_stat ?w' p = Some (File x)" using os_stat_plainI [OF ne ns wk'] by simp
  then show ?thesis using e by (simp add: read_file_def)
qed

lemma tidy_edit_file: "tidy w \<Longrightarrow> tidy (edit_file p x w)"
proof -
  assume td: "tidy w"
  show ?thesis
  proof (cases "walk (nodes w) (start_of w p) (components p)")
    case (Inl e)
    then show ?thesis using td by (simp add: edit_file_def)
  next
    case (Inr l)
    show ?thesis
    proof (cases "node_at (nodes w) l")
      case None
      then show ?thesis using td Inr by (simp add: edit_file_def)
    next
      case (Some nd)
      show ?thesis
      proof (cases nd)
        case Dir
        then show ?thesis using td Inr Some by (simp add: edit_file_def)
      next
        case (File y)
        then have l: "l \<noteq> []" "nodes w l = Some (File y)"
          using Some by (auto simp: node_at_def split: if_splits)
        have "edit_file p x w = w\<lparr>nodes := (nodes w)(l \<mapsto> File x)\<rparr>"
          using Inr Some File by (simp add: edit_file_def)
        moreover have "tidy (w\<lparr>nodes := (nodes w)(l \<mapsto> File x)\<rparr>)"
          using td l unfolding tidy_def node_at_def by (auto split: if_splits)
        ultimately show ?thesis by simp
      qed
    qed
  qed
qed

lemma created_files_steps:
  assumes "f \<in> set created_files"
  shows "CreateFileStep (os_path_join base_dir f) [] \<in> set program_steps"
proof -
  have c: "c = []" if "CreateFileStep q c \<in> set program_steps" for q c
    using program_steps_ok that by (auto simp: list_all_iff)
  have d: "CreateFileStep (os_path_join base_dir g) [] \<in> set program_steps"
    if "default_step g \<in> set program_steps" for g
    using that by (simp add: default_step_def default_content_def)
  have t: "CreateFileStep (os_path_join base_dir (fst e)) [] \<in> set program_steps"
    if "file_step e \<in> set program_steps" for e
    using that c [of "os_path_join base_dir (fst e)" "snd e"] by (simp add: file_step_def)
  from assms have "f \<in> set root_files \<or> f \<in> set docs_files
      \<or> (\<exists>e \<in> set public_files. f = fst e) \<or> (\<exists>e \<in> set src_files. f = fst e)
      \<or> f = fst (''data/presale-pricing.json'', [] :: string)"
    by (auto simp: created_files_def)
  then show ?thesis
  proof (elim disjE bexE)
    assume "f \<in> set root_files"
    then have "default_step f \<in> set program_steps" by (simp add: program_steps_def)
    then show ?thesis by (rule d)
  next
    assume "f \<in> set docs_files"
    then have "default_step f \<in> set program_steps" by (simp add: program_steps_def)
    then show ?thesis by (rule d)
  next
    fix e assume "e \<in> set public_files" "f = fst e"
    then have "file_step e \<in> set program_steps" by (simp add: program_steps_def)
    then show ?thesis using t \<open>f = fst e\<close> by simp
  next
    fix e assume "e \<in> set src_files" "f = fst e"
    then have "file_step e \<in> set program_steps" by (simp add: program_steps_def)
    then show ?thesis using t \<open>f = fst e\<close> by simp
  next
    assume f: "f = fst (''data/presale-pricing.json'', [] :: string)"
    have "file_step (''data/presale-pricing.json'', []) \<in> set program_steps"
      by (simp add: program_steps_def)
    from t [OF this] show ?thesis using f by simp
  qed
qed


section \<open>The order of the calls\<close>

lemma calls_default_steps:
  "concat (map calls_of_step (map default_step xs))
     = concat (map (\<lambda>file. create_file_calls (os_path_join base_dir file) default_content) xs)"
  by (induction xs) (simp_all add: default_step_def create_file_calls_def)

lemma calls_dir_steps:
  "concat (map calls_of_step (map dir_step xs))
     = map (\<lambda>dir_path. Makedirs (os_path_join base_dir dir_path)) xs"
  by (induction xs) (simp_all add: dir_step_def)

lemma calls_file_steps:
  "concat (map calls_of_step (map file_step xs))
     = concat (map (\<lambda>(file_path, content).
           create_file_calls (os_path_join base_dir file_path) content) xs)"
  by (induction xs) (simp_all add: file_step_def create_file_calls_def case_prod_unfold)

lemma program_calls_source_order:
  "program_calls =
     [Makedirs base_dir]
     @ concat (map (\<lambda>file. create_file_calls (os_path_join base_dir file) default_content)
         root_files)
     @ map (\<lambda>dir_path. Makedirs (os_path_join base_dir dir_path)) public_dirs
     @ concat (map (\<lambda>(file_path, content).
           create_file_calls (os_path_join base_dir file_path) content) public_files)
     @ map (\<lambda>dir_path. Makedirs (os_path_join base_dir dir_path)) src_dirs
     @ concat (map (\<lambda>(file_path, content).
           create_file_calls (os_path_join base_dir file_path) content) src_files)
     @ [Makedirs (os_path_join base_dir ''data'')]
     @ create_file_calls (os_path_join base_dir ''data/presale-pricing.json'') []
     @ concat (map (\<lambda>file. create_file_calls (os_path_join base_dir file) default_content)
         docs_files)
     @ map (\<lambda>dir_path. Makedirs (os_path_join base_dir dir_path)) test_dirs"
proof -
  have "calls_of_step (dir_step ''data'') = [Makedirs (os_path_join base_dir ''data'')]"
    by (simp add: dir_step_def)
  moreover have "calls_of_step (file_step (''data/presale-pricing.json'', []))
      = create_file_calls (os_path_join base_dir ''data/presale-pricing.json'') []"
    by (simp add: file_step_def create_file_calls_def)
  ultimately show ?thesis
    unfolding program_calls_def program_steps_def
    by (simp only: map_append concat_append calls_default_steps calls_dir_steps calls_file_steps
        list.map concat.simps calls_of_step.simps append_Nil2 append_Cons append_Nil)
qed

lemma program_calls_2: "program_calls ! 2 = OpenW ''wattschain-mlm-platform/README.md''"
  by (simp add: program_calls_def program_steps_def root_files_def default_step_def
      os_path_join_def base_dir_def)

lemma program_calls_37:
  "program_calls ! 37 = Makedirs ''wattschain-mlm-platform/public/images/payment-methods''"
  by (simp add: program_calls_def program_steps_def root_files_def public_dirs_def
      default_step_def dir_step_def os_path_join_def base_dir_def)



section \<open>Where the script works\<close>

lemma table_entries_relative: "list_all (\<lambda>e. e \<noteq> [] \<and> hd e \<noteq> CHR ''/'') table_entries"
  by (simp add: table_entries_def root_files_def public_dirs_def public_files_def src_dirs_def
      src_files_def docs_files_def test_dirs_def)

lemma program_steps_entries:
  assumes "s \<in> set program_steps"
  shows "s = MakedirsStep base_dir
    \<or> (\<exists>e \<in> set table_entries. s = MakedirsStep (os_path_join base_dir e)
          \<or> (\<exists>c. s = CreateFileStep (os_path_join base_dir e) c))"
proof -
  have d: "\<exists>e \<in> set table_entries. dir_step x = MakedirsStep (os_path_join base_dir e)
      \<or> (\<exists>c. dir_step x = CreateFileStep (os_path_join base_dir e) c)"
    if "x \<in> set public_dirs \<union> set src_dirs \<union> set test_dirs \<union> {''data''}" for x
    using that by (intro bexI [of _ x]) (auto simp: dir_step_def table_entries_def)
  have f: "\<exists>e \<in> set table_entries. file_step x = MakedirsStep (os_path_join base_dir e)
      \<or> (\<exists>c. file_step x = CreateFileStep (os_path_join base_dir e) c)"
    if "x \<in> set public_files \<union> set src_files \<union> {(''data/presale-pricing.json'', [])}" for x
    using that by (intro bexI [of _ "fst x"]) (auto simp: file_step_def table_entries_def)
  have r: "\<exists>e \<in> set table_entries. default_step x = MakedirsStep (os_path_join base_dir e)
      \<or> (\<exists>c. default_step x = CreateFileStep (os_path_join base_dir e) c)"
    if "x \<in> set root_files \<union> set docs_files" for x
    using that by (intro bexI [of _ x]) (auto simp: default_step_def table_entries_def)
  from assms have "s = MakedirsStep base_dir
      \<or> (\<exists>x \<in> set public_dirs \<union> set src_dirs \<union> set test_dirs \<union> {''data''}. s = dir_step x)
      \<or> (\<exists>x \<in> set public_files \<union> set src_files \<union> {(''data/presale-pricing.json'', [])}.
            s = file_step x)
      \<or> (\<exists>x \<in> set root_files \<union> set docs_files. s = default_step x)"
    by (auto simp: program_steps_def)
  then show ?thesis using d f r by blast
qed

lemma base_dir_no_sep: "CHR ''/'' \<notin> set base_dir"
  by (simp add: base_dir_def)

lemma join_base_dir_rel:
  "\<not> is_abs e \<Longrightarrow> os_path_join base_dir e = base_dir @ ''/'' @ e"
  by (simp add: os_path_join_def is_abs_def base_dir_def)

lemma components_base_dir: "components base_dir = [base_dir]"
  using components_no_sep [OF base_dir_no_sep] base_dir_not_Nil by simp

lemma components_join_base_dir:
  "\<not> is_abs e \<Longrightarrow> components (os_path_join base_dir e) = base_dir # components e"
  using components_append_sep [of base_dir e] by (simp add: join_base_dir_rel components_base_dir)

lemma base_dir_not_abs: "\<not> is_abs base_dir"
  by (simp add: is_abs_def base_dir_def)

lemma join_base_dir_not_abs: "\<not> is_abs e \<Longrightarrow> \<not> is_abs (os_path_join base_dir e)"
  using base_dir_not_abs base_dir_not_Nil by (simp add: join_base_dir_rel is_abs_def)

lemma components_not_Nil: "e \<noteq> [] \<Longrightarrow> hd e \<noteq> CHR ''/'' \<Longrightarrow> components e \<noteq> []"
  by (cases e) (auto simp: components_def split: list.splits)

lemma entry_relative:
  assumes "e \<in> set table_entries"
  shows "e \<noteq> []" and "\<not> is_abs e" and "components e \<noteq> []"
proof -
  from assms table_entries_relative have h: "e \<noteq> [] \<and> hd e \<noteq> CHR ''/''"
    by (auto simp: list_all_iff)
  then show "e \<noteq> []" "\<not> is_abs e" by (simp_all add: is_abs_def)
  from h show "components e \<noteq> []" using components_not_Nil by blast
qed

text \<open>The path of a step and the names it consists of.\<close>

lemma step_path_names:
  assumes "s \<in> set program_steps"
  shows "(\<exists>p. s = MakedirsStep p \<and> \<not> is_abs p
            \<and> (\<exists>cs. components p = base_dir # cs \<and> plain_names cs))
       \<or> (\<exists>p c. s = CreateFileStep p c \<and> \<not> is_abs p
            \<and> (\<exists>cs. components p = base_dir # cs \<and> cs \<noteq> [] \<and> plain_names cs))"
proof -
  have ok: "step_ok s" using assms program_steps_ok by (auto simp: list_all_iff)
  from program_steps_entries [OF assms] show ?thesis
  proof (elim disjE bexE exE)
    assume "s = MakedirsStep base_dir"
    then show ?thesis using base_dir_not_abs by (simp add: components_base_dir plain_names_def)
  next
    fix e assume e: "e \<in> set table_entries" and s: "s = MakedirsStep (os_path_join base_dir e)"
    note r = entry_relative [OF e]
    have "list_all dotless (components (os_path_join base_dir e))"
      using ok s by (simp add: dir_path_ok_def dir_names_ok_def)
    then have "plain_names (components e)"
      using components_join_base_dir [OF r(2)] dotless_plain [of "components e"] by simp
    then show ?thesis
      using s components_join_base_dir [OF r(2)] join_base_dir_not_abs [OF r(2)] by simp
  next
    fix e c assume e: "e \<in> set table_entries"
      and s: "s = CreateFileStep (os_path_join base_dir e) c"
    note r = entry_relative [OF e]
    let ?cs = "components (os_path_join base_dir e)"
    have f: "file_names_ok ?cs" using ok s by (simp add: file_path_ok_def)
    have cs: "?cs = base_dir # components e" using components_join_base_dir [OF r(2)] .
    have "list_all dotless (butlast ?cs)" "last ?cs \<noteq> ''.''" "last ?cs \<noteq> ''..''"
      using f by (simp_all add: file_names_ok_def dir_names_ok_def)
    then have "plain_names (butlast (components e))" "last (components e) \<noteq> ''.''"
      "last (components e) \<noteq> ''..''"
      using cs r(3) dotless_plain [of "butlast (components e)"] by simp_all
    then have "plain_names (butlast (components e) @ [last (components e)])"
      by (simp add: plain_names_def)
    then have "plain_names (components e)" using r(3) by simp
    then show ?thesis using s cs r(3) join_base_dir_not_abs [OF r(2)] by simp
  qed
qed



text \<open>The locations a call can change: \<^verbatim>\<open>os.makedirs\<close> on a relative path of plain names
  changes the tree only at the locations its prefixes name, and \<^verbatim>\<open>create_file\<close>
  likewise.\<close>

lemma os_mkdir_Done_components: "os_mkdir p w = Done u w' \<Longrightarrow> components p \<noteq> []"
  by (auto simp: os_mkdir_def split: if_splits sum.splits option.splits)

lemma mkdir_exist_ok_changes:
  assumes "nodes (world_of (mkdir_exist_ok name w)) l \<noteq> nodes w l"
    and "plain_names (components name)"
  shows "components name \<noteq> [] \<and> l = start_of w name @ components name"
proof (cases "os_mkdir name w")
  case (Raised e w1)
  then show ?thesis using assms(1) os_mkdir_Raised [OF Raised]
    by (simp add: mkdir_exist_ok_def split: if_splits)
next
  case (Done u w1)
  from os_mkdir_Done [OF Done] obtain m where
    wk: "walk (nodes w) (start_of w name) (components name) = Inr m"
    and w1: "w1 = w\<lparr>nodes := (nodes w)(m \<mapsto> Dir)\<rparr>" by blast
  have "l = m" using assms(1) Done w1 by (simp add: mkdir_exist_ok_def split: if_splits)
  then show ?thesis using walk_plain [OF assms(2) wk] os_mkdir_Done_components [OF Done] by simp
qed

lemma makedirs_changes:
  "\<not> is_abs name \<Longrightarrow> plain_names (components name) \<Longrightarrow>
   nodes (world_of (makedirs name w)) l \<noteq> nodes w l \<Longrightarrow>
   \<exists>k. 0 < k \<and> k \<le> length (components name) \<and> l = cwd w @ take k (components name)"
proof (induction name w rule: makedirs.induct)
  case (1 name w)
  have last_step: "\<exists>k. 0 < k \<and> k \<le> length (components name)
      \<and> l = cwd w @ take k (components name)"
    if "nodes (world_of (mkdir_exist_ok name v)) l \<noteq> nodes v l" and "cwd v = cwd w" for v
  proof -
    from mkdir_exist_ok_changes [OF that(1) "1.prems"(2)]
    have "components name \<noteq> []" "l = cwd w @ components name"
      using "1.prems"(1) that(2) by (simp_all add: start_of_def)
    then have "0 < length (components name) \<and> length (components name) \<le> length (components name)
        \<and> l = cwd w @ take (length (components name)) (components name)" by simp
    then show ?thesis by blast
  qed
  show ?case
  proof (cases "makedirs_head name \<noteq> [] \<and> makedirs_tail name \<noteq> []
         \<and> \<not> os_path_exists w (makedirs_head name)")
    case False
    then have "makedirs name w = mkdir_exist_ok name w" by (subst makedirs.simps) auto
    then show ?thesis using last_step [of w] "1.prems"(3) by simp
  next
    case True
    let ?h = "makedirs_head name"
    have c: "components name = components ?h @ [makedirs_tail name]"
      using makedirs_tail_components True by blast
    have h: "\<not> is_abs ?h" "plain_names (components ?h)"
      using True makedirs_head_is_abs [of name] "1.prems"(1,2) c by (simp_all add: plain_names_def)
    let ?w1 = "world_of (makedirs ?h w)"
    have cw: "cwd ?w1 = cwd w" using only_nodesD [OF makedirs_only_nodes [of w ?h]] by simp
    have first: "\<exists>k. 0 < k \<and> k \<le> length (components name)
        \<and> l = cwd w @ take k (components name)" if "nodes ?w1 l \<noteq> nodes w l"
    proof -
      from "1.IH" [OF True h that] obtain k where "0 < k" "k \<le> length (components ?h)"
        "l = cwd w @ take k (components ?h)" by blast
      then have "0 < k \<and> k \<le> length (components name) \<and> l = cwd w @ take k (components name)"
        using c by simp
      then show ?thesis by blast
    qed
    have "nodes (world_of (makedirs name w)) = nodes ?w1
        \<or> makedirs name w = mkdir_exist_ok name ?w1"
    proof (cases "makedirs ?h w")
      case (Done u w1)
      then show ?thesis using True by (subst (1 2) makedirs.simps) simp
    next
      case (Raised e w1)
      then show ?thesis using True by (subst (1 2) makedirs.simps) simp
    qed
    then consider "nodes (world_of (makedirs name w)) = nodes ?w1"
      | "makedirs name w = mkdir_exist_ok name ?w1" by blast
    then show ?thesis
    proof cases
      case 1
      then show ?thesis using first "1.prems"(3) by simp
    next
      case 2
      show ?thesis
      proof (cases "nodes ?w1 l = nodes w l")
        case False
        then show ?thesis by (rule first)
      next
        case True
        then have "nodes (world_of (mkdir_exist_ok name ?w1)) l \<noteq> nodes ?w1 l"
          using 2 "1.prems"(3) by simp
        then show ?thesis using last_step cw by blast
      qed
    qed
  qed
qed

lemma os_makedirs_changes:
  assumes "\<not> is_abs name" and "plain_names (components name)"
    and "nodes (world_of (os_makedirs name w)) l \<noteq> nodes w l"
  shows "\<exists>k. 0 < k \<and> k \<le> length (components name) \<and> l = cwd w @ take k (components name)"
  using makedirs_changes [OF assms(1,2), of "logged (Makedirs name) w" l] assms(3)
  by (simp add: os_makedirs_def logged_simps)

lemma open_w_changes:
  assumes "\<not> is_abs p" and "plain_names (components p)"
    and "nodes (world_of (open_w p w)) l \<noteq> nodes w l"
  shows "components p \<noteq> [] \<and> l = cwd w @ components p"
proof (cases "open_w p w")
  case (Raised e w1)
  then show ?thesis using assms(3) open_w_Raised [OF Raised] by (simp add: logged_simps)
next
  case (Done f w1)
  then have s: "sys_open p (logged (OpenW p) w) = Done f w1" by (simp add: open_w_def)
  from sys_open_Done [OF s] have c: "components p \<noteq> []"
    and wk: "walk (nodes w) (start_of w p) (components p) = Inr f"
    by (simp_all add: logged_simps start_of_logged)
  have f: "f = cwd w @ components p" using walk_plain [OF assms(2) wk] assms(1)
    by (simp add: start_of_def)
  have "nodes w1 m = nodes w m" if "m \<noteq> f" for m
    using s that by (auto simp: sys_open_def logged_simps split: if_splits sum.splits option.splits)
  then have "l = f" using assms(3) Done by auto
  then show ?thesis using c f by simp
qed

lemma file_write_changes:
  "nodes (world_of (file_write f c w)) l \<noteq> nodes w l \<Longrightarrow> l = f"
  by (auto simp: file_write_def Let_def logged_simps split: if_splits option.splits)

lemma create_file_changes:
  assumes "\<not> is_abs p" and "plain_names (components p)" and "file_path_ok p"
    and "nodes (world_of (create_file p c w)) l \<noteq> nodes w l"
  shows "\<exists>k. 0 < k \<and> k \<le> length (components p) \<and> l = cwd w @ take k (components p)"
proof -
  let ?d = "os_path_dirname p"
  note d = file_path_ok_dirname [OF assms(3)]
  have dc: "components ?d = butlast (components p)" using d by simp
  have da: "\<not> is_abs ?d" using d(2) by (simp add: dir_path_ok_def)
  have dp: "plain_names (components ?d)"
    using assms(2) dc by (auto simp: plain_names_def list_all_iff dest: in_set_butlastD)
  have in_dir: "\<exists>k. 0 < k \<and> k \<le> length (components p) \<and> l = cwd w @ take k (components p)"
    if "nodes (world_of (os_makedirs ?d w)) l \<noteq> nodes w l"
  proof -
    from os_makedirs_changes [OF da dp that] obtain k where k: "0 < k"
      "k \<le> length (butlast (components p))" "l = cwd w @ take k (butlast (components p))"
      using dc by auto
    have "take k (butlast (components p)) = take k (components p)"
    proof (cases "components p = []")
      case True
      then show ?thesis by simp
    next
      case False
      then have "0 < length (components p)" by simp
      moreover have "length (butlast (components p)) = length (components p) - 1"
        by (rule length_butlast)
      ultimately have "k < length (components p)" using k(2) by arith
      then show ?thesis by (rule take_butlast)
    qed
    then have "0 < k \<and> k \<le> length (components p) \<and> l = cwd w @ take k (components p)"
      using k by simp
    then show ?thesis by blast
  qed
  have at_file: "\<exists>k. 0 < k \<and> k \<le> length (components p) \<and> l = cwd w @ take k (components p)"
    if "components p \<noteq> []" "l = cwd w @ components p"
  proof -
    have "0 < length (components p) \<and> length (components p) \<le> length (components p)
        \<and> l = cwd w @ take (length (components p)) (components p)" using that by simp
    then show ?thesis by blast
  qed
  have cw: "cwd (world_of (os_makedirs ?d w)) = cwd w" using os_makedirs_frame by simp
  show ?thesis
  proof (cases p c w rule: create_file_cases)
    case (makedirs_raised e w1)
    then show ?thesis using in_dir assms(4) by simp
  next
    case (open_raised w1 e w2)
    then have "nodes w2 = nodes w1" using open_w_Raised [of p w1 e w2] by (simp add: logged_simps)
    then show ?thesis using in_dir assms(4) open_raised by simp
  next
    case (write_raised w1 f w2 e w3)
    have n3: "nodes w3 = nodes w2"
      using file_write_Raised [OF write_raised(3)] by (simp add: logged_simps)
    show ?thesis
    proof (cases "nodes w1 l = nodes w l")
      case False
      then show ?thesis using in_dir write_raised(1) by simp
    next
      case True
      then have "nodes (world_of (open_w p w1)) l \<noteq> nodes w1 l"
        using assms(4) write_raised n3 by simp
      from open_w_changes [OF assms(1,2) this] show ?thesis
        using at_file cw write_raised(1) by simp
    qed
  next
    case (all_done w1 f w2 w3)
    from open_w_Done [OF all_done(2)] have
      wk: "walk (nodes w1) (start_of w1 p) (components p) = Inr f" and c: "components p \<noteq> []"
      by simp_all
    have f: "f = cwd w @ components p"
      using walk_plain [OF assms(2) wk] assms(1) cw all_done(1) by (simp add: start_of_def)
    show ?thesis
    proof (cases "nodes w1 l = nodes w l")
      case False
      then show ?thesis using in_dir all_done(1) by simp
    next
      case True
      show ?thesis
      proof (cases "nodes w2 l = nodes w1 l")
        case False
        then have "nodes (world_of (open_w p w1)) l \<noteq> nodes w1 l" using all_done(2) by simp
        from open_w_changes [OF assms(1,2) this] show ?thesis
          using at_file cw all_done(1) by simp
      next
        case t2: True
        then have "nodes (world_of (file_write f c w2)) l \<noteq> nodes w2 l"
          using assms(4) all_done True by simp
        then have "l = f" by (rule file_write_changes)
        then show ?thesis using at_file c f by simp
      qed
    qed
  qed
qed

lemma run_step_frame: "cwd (world_of (run_step s w)) = cwd w"
proof (cases s)
  case (MakedirsStep p)
  then show ?thesis using os_makedirs_frame [of p w] by simp
next
  case (CreateFileStep p c)
  show ?thesis
  proof (cases p c w rule: create_file_cases)
    case (makedirs_raised e w1)
    then show ?thesis using CreateFileStep os_makedirs_frame [of "os_path_dirname p" w] by simp
  next
    case (open_raised w1 e w2)
    then show ?thesis
      using CreateFileStep os_makedirs_frame [of "os_path_dirname p" w]
        open_w_Raised [of p w1 e w2] by (simp add: logged_simps)
  next
    case (write_raised w1 f w2 e w3)
    then show ?thesis
      using CreateFileStep os_makedirs_frame [of "os_path_dirname p" w]
        open_w_Done [of p w1 f w2] file_write_Raised [of f c w2 e w3] by (simp add: logged_simps)
  next
    case (all_done w1 f w2 w3)
    then show ?thesis
      using CreateFileStep os_makedirs_frame [of "os_path_dirname p" w]
        open_w_Done [of p w1 f w2] file_write_Done [of f c w2 "()" w3] by simp
  qed
qed

lemma path_locs_iff:
  "\<not> is_abs p \<Longrightarrow>
     l \<in> set (path_locs w p)
       \<longleftrightarrow> (\<exists>k. 0 < k \<and> k \<le> length (components p) \<and> l = cwd w @ take k (components p))"
proof -
  assume "\<not> is_abs p"
  then have "set (path_locs w p)
      = (\<lambda>k. cwd w @ take k (components p)) ` {1 ..< Suc (length (components p))}"
    by (simp only: path_locs_def start_of_def set_map set_upt if_False)
  moreover have "k \<in> {1 ..< Suc n} \<longleftrightarrow> 0 < k \<and> k \<le> n" for k n :: nat by auto
  ultimately show ?thesis by (simp only: image_iff Bex_def) blast
qed

lemma run_step_changes:
  assumes "s \<in> set program_steps" and "nodes (world_of (run_step s w)) l \<noteq> nodes w l"
  shows "l \<in> set (path_locs w (step_path s))"
proof -
  have ok: "step_ok s" using assms(1) program_steps_ok by (auto simp: list_all_iff)
  have b: "base_dir \<noteq> ''.''" "base_dir \<noteq> ''..''" by (simp_all add: base_dir_def)
  from step_path_names [OF assms(1)] show ?thesis
  proof (elim disjE exE conjE)
    fix p cs assume p: "s = MakedirsStep p" "\<not> is_abs p" "components p = base_dir # cs"
      "plain_names cs"
    have "plain_names (components p)" using p(3,4) b by (simp add: plain_names_def)
    from os_makedirs_changes [OF p(2) this, of w l] assms(2) p(1) show ?thesis
      using path_locs_iff [of p l w] p(2) by simp
  next
    fix p c cs assume p: "s = CreateFileStep p c" "\<not> is_abs p" "components p = base_dir # cs"
      "cs \<noteq> []" "plain_names cs"
    have "plain_names (components p)" using p(3,5) b by (simp add: plain_names_def)
    moreover have "file_path_ok p" using ok p(1) by simp
    ultimately show ?thesis
      using create_file_changes [OF p(2), of c w l] assms(2) p(1) path_locs_iff [of p l w] p(2)
      by simp
  qed
qed

lemma path_locs_frame: "cwd w' = cwd w \<Longrightarrow> path_locs w' p = path_locs w p"
  by (simp add: path_locs_def start_of_def)

lemma steps_frame: "cwd (world_of (for_each run_step ss w)) = cwd w"
proof (induction ss arbitrary: w)
  case Nil
  show ?case by simp
next
  case (Cons s ss)
  show ?case
  proof (cases "run_step s w")
    case (Done u w1)
    then show ?thesis using Cons.IH [of w1] run_step_frame [of s w] by simp
  next
    case (Raised e w1)
    then show ?thesis using run_step_frame [of s w] by simp
  qed
qed

lemma steps_changes:
  "set ss \<subseteq> set program_steps \<Longrightarrow> nodes (world_of (for_each run_step ss w)) l \<noteq> nodes w l \<Longrightarrow>
     \<exists>t \<in> set ss. l \<in> set (path_locs w (step_path t))"
proof (induction ss arbitrary: w)
  case Nil
  then show ?case by simp
next
  case (Cons s ss)
  have s: "s \<in> set program_steps" and ss: "set ss \<subseteq> set program_steps"
    using Cons.prems(1) by simp_all
  show ?case
  proof (cases "run_step s w")
    case (Raised e w1)
    then show ?thesis using run_step_changes [OF s, of w l] Cons.prems(2) by simp
  next
    case (Done u w1)
    have cw: "cwd w1 = cwd w" using run_step_frame [of s w] Done by simp
    show ?thesis
    proof (cases "nodes w1 l = nodes w l")
      case False
      then show ?thesis using run_step_changes [OF s, of w l] Done by simp
    next
      case True
      then have "nodes (world_of (for_each run_step ss w1)) l \<noteq> nodes w1 l"
        using Cons.prems(2) Done by simp
      from Cons.IH [OF ss this] show ?thesis using path_locs_frame [OF cw] by auto
    qed
  qed
qed






section \<open>A step that raises\<close>

lemma unit_outcome_Done: "succeeded r \<Longrightarrow> r = Done () (world_of r)"
  by (cases r) simp_all

lemma create_file_makedirs_Raised:
  "os_makedirs (os_path_dirname p) w = Raised e w1 \<Longrightarrow> create_file p c w = Raised e w1"
  by (simp add: create_file_def)

lemma create_file_open_Raised:
  "os_makedirs (os_path_dirname p) w = Done () w1 \<Longrightarrow> open_w p w1 = Raised e w2 \<Longrightarrow>
     create_file p c w = Raised e w2"
  by (simp add: create_file_def)

lemma create_file_write_Raised:
  "os_makedirs (os_path_dirname p) w = Done () w1 \<Longrightarrow> open_w p w1 = Done f w2 \<Longrightarrow>
     file_write f c w2 = Raised e w3 \<Longrightarrow> create_file p c w = Raised e w3"
  by (simp add: create_file_def)

text \<open>When the steps before \<open>s\<close> have returned and \<open>s\<close> raises, the run raises the same
  error in the world \<open>s\<close> has reached.\<close>

lemma step_Raised_run:
  assumes "program_steps = before @ s # after"
    and "for_each run_step before w = Done () wk" and "run_step s wk = Raised e w'"
  shows "create_directory_structure w = Raised e w'"
  unfolding cds_steps assms(1) using assms(2,3) by (simp add: for_each_append)

lemma step_Raised_state:
  assumes ps: "program_steps = before @ s # after"
    and b: "for_each run_step before w = Done () wk" and r: "run_step s wk = Raised e w'"
  shows "stdout w' = stdout w" and "list_all (\<lambda>t. step_post t w') before" and "kept w w'"
    and "\<exists>k < length (calls_of_step s).
           calls_made w (create_directory_structure w)
             = concat (map calls_of_step before) @ take (Suc k) (calls_of_step s)"
    and "\<forall>l. nodes w' l \<noteq> nodes w l
           \<longrightarrow> (\<exists>t \<in> set (before @ [s]). l \<in> set (path_locs w (step_path t)))"
proof -
  note c = step_Raised_run [OF ps b r]
  have ok: "list_all step_ok before" "step_ok s" using program_steps_ok unfolding ps by simp_all
  have mem: "set before \<subseteq> set program_steps" "s \<in> set program_steps" unfolding ps by auto
  show "stdout w' = stdout w" using steps_stdout [of program_steps w] c by (simp add: cds_steps)
  have k1: "kept wk w'" using run_step_kept [OF ok(2), of wk] r by simp
  have k0: "kept w wk" using steps_kept [OF ok(1), of w] b by simp
  show "list_all (\<lambda>t. step_post t w') before"
    using steps_post [OF ok(1) b] ok(1) post_kept [OF _ _ k1] by (auto simp: list_all_iff)
  show "kept w w'" using kept_trans [OF k0 k1] .
  from step_trace_Raised [OF r] obtain k where k: "0 < k" "k \<le> length (calls_of_step s)"
    and t: "trace w' = trace wk @ take k (calls_of_step s)" by blast
  have "calls_made w (create_directory_structure w)
      = concat (map calls_of_step before) @ take (Suc (k - 1)) (calls_of_step s)"
    using c t k steps_trace_Done [OF b] by (simp add: calls_made_def)
  moreover have "k - 1 < length (calls_of_step s)" using k by simp
  ultimately show "\<exists>j < length (calls_of_step s).
      calls_made w (create_directory_structure w)
        = concat (map calls_of_step before) @ take (Suc j) (calls_of_step s)" by blast
  have cw: "cwd wk = cwd w" using steps_frame [of before w] b by simp
  show "\<forall>l. nodes w' l \<noteq> nodes w l
           \<longrightarrow> (\<exists>t \<in> set (before @ [s]). l \<in> set (path_locs w (step_path t)))"
  proof (intro allI impI)
    fix l assume l: "nodes w' l \<noteq> nodes w l"
    show "\<exists>t \<in> set (before @ [s]). l \<in> set (path_locs w (step_path t))"
    proof (cases "nodes wk l = nodes w l")
      case False
      then have "nodes (world_of (for_each run_step before w)) l \<noteq> nodes w l" using b by simp
      from steps_changes [OF mem(1) this] show ?thesis by auto
    next
      case True
      then have "nodes (world_of (run_step s wk)) l \<noteq> nodes wk l" using l r by simp
      from run_step_changes [OF mem(2) this] show ?thesis
        using path_locs_frame [OF cw] by simp
    qed
  qed
qed






section \<open>Runs from the same file system\<close>

lemma same_state_refl: "same_state w w"
  by (simp add: same_state_def)





















section \<open>The claims of the specification\<close>

text \<open>
  C1. After a run of \<open>create_directory_structure\<close> that returns, the root directory, every
  directory of \<open>public_dirs\<close>, \<open>src_dirs\<close> and \<open>test_dirs\<close>, the \<open>data\<close> directory and the
  \<open>docs\<close> directory are directories, and every file of the tables is a regular file that
  holds exactly the content the table (or the default argument of \<open>create_file\<close>) gives it.
  This holds from any starting tree, on any host.
\<close>

theorem tree_materialised:
  assumes "create_directory_structure w = Done u w'"
  shows "os_path_isdir w' base_dir
    \<and> (\<forall>d \<in> set (public_dirs @ src_dirs @ [''data'', ''docs''] @ test_dirs).
          os_path_isdir w' (os_path_join base_dir d))
    \<and> (\<forall>f \<in> set (root_files @ docs_files).
          read_file w' (os_path_join base_dir f) = Some default_content)
    \<and> (\<forall>e \<in> set (public_files @ src_files @ [(''data/presale-pricing.json'', [])]).
          read_file w' (os_path_join base_dir (fst e)) = Some (snd e))"
proof -
  note post = cds_Done_posts [OF assms]
  have root: "os_path_isdir w' base_dir"
    using post [rule_format, of "MakedirsStep base_dir"] by (simp add: program_steps_def)
  have dirs: "os_path_isdir w' (os_path_join base_dir d)"
    if "d \<in> set (public_dirs @ src_dirs @ [''data''] @ test_dirs)" for d
  proof -
    have "dir_step d \<in> set program_steps" using that by (auto simp: program_steps_def)
    from post [rule_format, OF this] show ?thesis by (simp add: dir_step_def)
  qed
  have docs: "os_path_isdir w' (os_path_join base_dir ''docs'')"
  proof -
    have "default_step ''docs/API.md'' \<in> set program_steps"
      by (simp add: program_steps_def docs_files_def)
    from post [rule_format, OF this] show ?thesis by (simp add: default_step_def docs_dirname)
  qed
  have defaults: "read_file w' (os_path_join base_dir f) = Some default_content"
    if "f \<in> set (root_files @ docs_files)" for f
  proof -
    have "default_step f \<in> set program_steps" using that by (auto simp: program_steps_def)
    from post [rule_format, OF this] show ?thesis by (simp add: default_step_def)
  qed
  have files: "read_file w' (os_path_join base_dir (fst e)) = Some (snd e)"
    if "e \<in> set (public_files @ src_files @ [(''data/presale-pricing.json'', [])])" for e
  proof -
    have "file_step e \<in> set program_steps" using that by (auto simp: program_steps_def)
    from post [rule_format, OF this] show ?thesis by (simp add: file_step_def)
  qed
  show ?thesis using root dirs docs defaults files by auto
qed

theorem tree_materialised_witness:
  "succeeded (create_directory_structure empty_world)
   \<and> os_path_isdir (world_of (create_directory_structure empty_world)) ''wattschain-mlm-platform''
   \<and> os_path_isdir (world_of (create_directory_structure empty_world))
       ''wattschain-mlm-platform/public/locales/sw''
   \<and> os_path_isdir (world_of (create_directory_structure empty_world))
       ''wattschain-mlm-platform/docs''
   \<and> read_file (world_of (create_directory_structure empty_world))
       ''wattschain-mlm-platform/docker-compose.yml'' = Some []
   \<and> read_file (world_of (create_directory_structure empty_world))
       ''wattschain-mlm-platform/public/favicon.ico'' = Some []"
proof -
  from cds_tidy [OF tidy_empty_world] obtain w' where
    r: "create_directory_structure empty_world = Done () w'" by blast
  note t = tree_materialised [OF r]
  have "os_path_isdir w' (os_path_join base_dir ''public/locales/sw'')"
    using t by (simp add: public_dirs_def)
  moreover have "os_path_isdir w' (os_path_join base_dir ''docs'')" using t by simp
  moreover have "read_file w' (os_path_join base_dir ''docker-compose.yml'') = Some default_content"
    using t by (simp add: root_files_def)
  moreover have "read_file w' (os_path_join base_dir (fst (''public/favicon.ico'', [])))
      = Some (snd (''public/favicon.ico'', []))"
    using t by (simp add: public_files_def)
  moreover have "os_path_isdir w' base_dir" using t by simp
  ultimately show ?thesis
    using r by (simp add: os_path_join_def base_dir_def default_content_def)
qed


text \<open>
  C2. \<open>create_file\<close> overwrites. When it returns, the file holds the content it was given,
  whatever the path named before. For the script: let a first run return, let any file the
  script creates then be given any other content behind its back, and let the script run
  again and return; then the file holds the literal default of the tables again, the empty
  string. The change made between the runs is lost.
\<close>

theorem create_file_overwrites:
  "(\<forall>u w'. create_file p c w = Done u w' \<longrightarrow> read_file w' p = Some c)
   \<and> (\<forall>f \<in> set created_files. \<forall>u1 w1 u2 w2.
         create_directory_structure w = Done u1 w1
         \<and> create_directory_structure (edit_file (os_path_join base_dir f) x w1) = Done u2 w2
         \<longrightarrow> read_file w1 (os_path_join base_dir f) = Some []
             \<and> read_file (edit_file (os_path_join base_dir f) x w1) (os_path_join base_dir f) = Some x
             \<and> read_file w2 (os_path_join base_dir f) = Some [])"
proof (intro conjI allI impI ballI)
  fix u w'
  assume "create_file p c w = Done u w'"
  then show "read_file w' p = Some c" by (rule create_file_Done_read)
next
  fix f u1 w1 u2 w2
  assume f: "f \<in> set created_files"
    and r: "create_directory_structure w = Done u1 w1
      \<and> create_directory_structure (edit_file (os_path_join base_dir f) x w1) = Done u2 w2"
  let ?q = "os_path_join base_dir f"
  note s = created_files_steps [OF f]
  from r cds_Done_posts [of w u1 w1] s show 1: "read_file w1 ?q = Some []" by fastforce
  from edit_file_read [OF 1] show "read_file (edit_file ?q x w1) ?q = Some x" .
  from r cds_Done_posts [of "edit_file ?q x w1" u2 w2] s show "read_file w2 ?q = Some []"
    by fastforce
qed

theorem create_file_overwrites_witness:
  "succeeded (create_directory_structure empty_world)
   \<and> succeeded (create_directory_structure
        (edit_file (os_path_join base_dir ''README.md'') ''my notes''
           (world_of (create_directory_structure empty_world))))
   \<and> read_file
        (edit_file (os_path_join base_dir ''README.md'') ''my notes''
           (world_of (create_directory_structure empty_world)))
        (os_path_join base_dir ''README.md'') = Some ''my notes''
   \<and> read_file
        (world_of (create_directory_structure
           (edit_file (os_path_join base_dir ''README.md'') ''my notes''
              (world_of (create_directory_structure empty_world)))))
        (os_path_join base_dir ''README.md'') = Some []"
proof -
  let ?q = "os_path_join base_dir ''README.md''"
  from cds_tidy [OF tidy_empty_world] obtain w1 where
    r1: "create_directory_structure empty_world = Done () w1" and t: "tidy w1" by blast
  from cds_tidy [OF tidy_edit_file [OF t, of ?q "''my notes''"]] obtain w2 where
    r2: "create_directory_structure (edit_file ?q ''my notes'' w1) = Done () w2" by blast
  have m: "''README.md'' \<in> set created_files" by (simp add: created_files_def root_files_def)
  have "read_file (edit_file ?q ''my notes'' w1) ?q = Some ''my notes''
      \<and> read_file w2 ?q = Some []"
    using create_file_overwrites [of ?q "[]" empty_world "''my notes''"] m r1 r2 by blast
  then show ?thesis using r1 r2 by simp
qed


text \<open>
  C3. The claim: the root is created first, then all directories, then all files, so that no
  file is created before any of the listed directories. The script does not work like that.
  On the empty tree the third call of the run opens \<^verbatim>\<open>README.md\<close>, long before the call
  that makes the first of the public directories.
\<close>

theorem files_before_directories_counterexample:
  "succeeded (create_directory_structure empty_world)
   \<and> calls_made empty_world (create_directory_structure empty_world) ! 2
       = OpenW ''wattschain-mlm-platform/README.md''
   \<and> calls_made empty_world (create_directory_structure empty_world) ! 37
       = Makedirs ''wattschain-mlm-platform/public/images/payment-methods''"
proof -
  from cds_tidy [OF tidy_empty_world] obtain w' where
    r: "create_directory_structure empty_world = Done () w'" by blast
  from cds_calls_Done [OF r] r show ?thesis
    by (simp add: program_calls_2 program_calls_37)
qed

text \<open>
  C3, as the script has it. The root is created first. Then the script goes through its
  tables in the order of the source text, each table in the order of its entries: the root
  files; the public directories, then the public files; the src directories, then the src
  files; the data directory, then the data file; the docs files; the test directories. A run
  that raises has issued an initial part of this sequence.
\<close>

theorem calls_in_source_order:
  "calls_made w (create_directory_structure w)
     = take (length (calls_made w (create_directory_structure w)))
        ([Makedirs base_dir]
         @ concat (map (\<lambda>file. create_file_calls (os_path_join base_dir file) default_content)
             root_files)
         @ map (\<lambda>dir_path. Makedirs (os_path_join base_dir dir_path)) public_dirs
         @ concat (map (\<lambda>(file_path, content).
               create_file_calls (os_path_join base_dir file_path) content) public_files)
         @ map (\<lambda>dir_path. Makedirs (os_path_join base_dir dir_path)) src_dirs
         @ concat (map (\<lambda>(file_path, content).
               create_file_calls (os_path_join base_dir file_path) content) src_files)
         @ [Makedirs (os_path_join base_dir ''data'')]
         @ create_file_calls (os_path_join base_dir ''data/presale-pricing.json'') []
         @ concat (map (\<lambda>file. create_file_calls (os_path_join base_dir file) default_content)
             docs_files)
         @ map (\<lambda>dir_path. Makedirs (os_path_join base_dir dir_path)) test_dirs)
   \<and> (succeeded (create_directory_structure w) \<longrightarrow>
         length (calls_made w (create_directory_structure w)) = length program_calls)
   \<and> 0 < length (calls_made w (create_directory_structure w))"
proof (cases "create_directory_structure w")
  case (Done u w')
  have "0 < length program_calls" by (simp add: program_calls_def program_steps_def)
  then show ?thesis
    unfolding program_calls_source_order [symmetric]
    using cds_calls_Done [OF Done] Done by simp
next
  case (Raised e w')
  from cds_calls_Raised [OF Raised] obtain k where k: "k < length program_calls"
    and c: "calls_made w (create_directory_structure w) = take (Suc k) program_calls" by blast
  have "length (calls_made w (create_directory_structure w)) = Suc k" using k c by simp
  then show ?thesis
    unfolding program_calls_source_order [symmetric]
    using c Raised by simp
qed

theorem calls_in_source_order_witness:
  "succeeded (create_directory_structure empty_world)
   \<and> length (calls_made empty_world (create_directory_structure empty_world))
       = length program_calls
   \<and> calls_made clash_world (create_directory_structure clash_world)
       = take 3 program_calls"
proof -
  from cds_tidy [OF tidy_empty_world] obtain w' where
    r: "create_directory_structure empty_world = Done () w'" by blast
  have "length (calls_made empty_world (create_directory_structure empty_world))
      = length program_calls"
    using calls_in_source_order [of empty_world] r by simp
  moreover have "calls_made clash_world (create_directory_structure clash_world)
      = take 3 program_calls"
  proof -
    have "trace (world_of (create_directory_structure clash_world))
        = [Makedirs base_dir, Makedirs base_dir, OpenW (os_path_join base_dir ''README.md'')]"
      by (simp add: clash_world_run)
    moreover have "trace clash_world = []" by (simp add: clash_world_def)
    moreover have "take 3 program_calls
        = [Makedirs base_dir, Makedirs base_dir, OpenW (os_path_join base_dir ''README.md'')]"
      by (simp add: program_calls_def program_steps_def root_files_def default_step_def
          readme_dirname)
    ultimately show ?thesis by (simp add: calls_made_def)
  qed
  ultimately show ?thesis using r by simp
qed


text \<open>
  C4. Creating directories is idempotent. \<^verbatim>\<open>os.makedirs(p, exist_ok=True)\<close> on a path
  that is a directory already returns and leaves the tree as it is. So a second run, started
  in the world a first run has returned in, leaves the whole tree, and with it the set of
  directories, unchanged, whatever its outcome. It raises no error on account of the
  directories that exist: the only error it can raise is the refusal of the host to open one
  of the files, and on a host that lets the files be opened it returns.
\<close>

theorem directories_idempotent:
  "(os_path_isdir w p \<longrightarrow> os_makedirs p w = Done () (logged (Makedirs p) w))
   \<and> (\<forall>u w1. create_directory_structure w = Done u w1 \<longrightarrow>
         nodes (world_of (create_directory_structure w1)) = nodes w1
         \<and> {l. nodes (world_of (create_directory_structure w1)) l = Some Dir}
             = {l. nodes w1 l = Some Dir}
         \<and> rerun_ok w1 (create_directory_structure w1)
         \<and> ((\<forall>l. refuses w1 (ReqOpen l) (nodes w1) = None) \<longrightarrow>
               succeeded (create_directory_structure w1)))"
proof (intro conjI impI allI)
  assume "os_path_isdir w p"
  then show "os_makedirs p w = Done () (logged (Makedirs p) w)" by (rule os_makedirs_noop)
next
  fix u w1
  assume r: "create_directory_structure w = Done u w1"
  note ok = cds_rerun [OF r]
  then show n: "nodes (world_of (create_directory_structure w1)) = nodes w1"
    by (simp add: rerun_ok_def)
  show "{l. nodes (world_of (create_directory_structure w1)) l = Some Dir}
      = {l. nodes w1 l = Some Dir}" by (simp only: n)
  show "rerun_ok w1 (create_directory_structure w1)" using ok .
  assume "\<forall>l. refuses w1 (ReqOpen l) (nodes w1) = None"
  then show "succeeded (create_directory_structure w1)"
    using ok by (cases "create_directory_structure w1") (simp_all add: rerun_ok_def)
qed

theorem directories_idempotent_witness:
  "os_makedirs base_dir clash_world = Done () (logged (Makedirs base_dir) clash_world)
   \<and> succeeded (create_directory_structure empty_world)
   \<and> succeeded (create_directory_structure (world_of (create_directory_structure empty_world)))
   \<and> nodes (world_of (create_directory_structure
               (world_of (create_directory_structure empty_world))))
       = nodes (world_of (create_directory_structure empty_world))"
proof -
  from cds_tidy [OF tidy_empty_world] obtain w1 where
    r: "create_directory_structure empty_world = Done () w1" and t: "tidy w1" by blast
  have p: "\<forall>l. refuses w1 (ReqOpen l) (nodes w1) = None" using t by (simp add: tidy_def)
  have "os_makedirs base_dir clash_world = Done () (logged (Makedirs base_dir) clash_world)"
    using directories_idempotent [of clash_world base_dir] clash_world_root by blast
  moreover have "succeeded (create_directory_structure w1)
      \<and> nodes (world_of (create_directory_structure w1)) = nodes w1"
    using directories_idempotent [of empty_world] r p by blast
  ultimately show ?thesis using r by simp
qed


text \<open>
  C5. Every file the script creates is empty. The default argument of \<open>create_file\<close> is the
  empty string, every content of the file tables is the empty string, so every step that
  creates a file writes the empty string; in a run, whatever its outcome, every
  \<^verbatim>\<open>write\<close> is given the empty string, and after a run that returns every file of the
  script is a regular file of zero bytes.
\<close>

theorem every_file_zero_byte:
  "default_content = []
   \<and> list_all (\<lambda>e. snd e = []) (public_files @ src_files)
   \<and> (\<forall>s \<in> set program_steps. \<forall>p c. s = CreateFileStep p c \<longrightarrow> c = [])
   \<and> (\<forall>c. FileWrite c \<in> set (calls_made w (create_directory_structure w)) \<longrightarrow> c = [])
   \<and> (\<forall>u w'. create_directory_structure w = Done u w' \<longrightarrow>
         (\<forall>s \<in> set program_steps. \<forall>p c. s = CreateFileStep p c \<longrightarrow> read_file w' p = Some []))"
proof -
  have steps: "c = []" if "s \<in> set program_steps" "s = CreateFileStep p c" for s p c
    using program_steps_ok that by (auto simp: list_all_iff)
  have tables: "list_all (\<lambda>e. snd e = []) (public_files @ src_files)"
    unfolding list_all_iff
  proof
    fix e
    assume "e \<in> set (public_files @ src_files)"
    then have "file_step e \<in> set program_steps" by (auto simp: program_steps_def)
    from steps [OF this] show "snd e = []" by (simp add: file_step_def)
  qed
  have writes: "c = []" if "FileWrite c \<in> set (calls_made w (create_directory_structure w))" for c
  proof -
    from that cds_calls_subset [of w] have "FileWrite c \<in> set program_calls" by blast
    then obtain s where s: "s \<in> set program_steps" and c: "FileWrite c \<in> set (calls_of_step s)"
      by (auto simp: program_calls_def)
    show ?thesis
    proof (cases s)
      case (MakedirsStep q)
      then show ?thesis using c by simp
    next
      case (CreateFileStep q d)
      then show ?thesis using c steps [OF s CreateFileStep] by simp
    qed
  qed
  have disk: "read_file w' p = Some []"
    if "create_directory_structure w = Done u w'" "s \<in> set program_steps" "s = CreateFileStep p c"
    for u w' s p c
    using cds_Done_posts [OF that(1)] that(2,3) steps [OF that(2,3)] by auto
  show ?thesis
    using steps tables writes disk by (simp add: default_content_def) blast
qed

theorem every_file_zero_byte_witness:
  "snd (''src/lib/mlm.ts'', []) = []
   \<and> FileWrite ''presale'' \<notin> set (calls_made empty_world (create_directory_structure empty_world))
   \<and> read_file (world_of (create_directory_structure empty_world))
        (os_path_join base_dir ''src/lib/mlm.ts'') = Some []"
proof -
  from cds_tidy [OF tidy_empty_world] obtain w' where
    r: "create_directory_structure empty_world = Done () w'" by blast
  have m: "file_step (''src/lib/mlm.ts'', []) \<in> set program_steps"
    by (simp add: program_steps_def src_files_def)
  show ?thesis
    using every_file_zero_byte [of empty_world] r m
    by (auto simp: file_step_def)
qed


text \<open>
  C6. The script handles no error. In \<^verbatim>\<open>create_file\<close> an error of \<^verbatim>\<open>os.makedirs\<close>, of
  \<^verbatim>\<open>open\<close> or of the write is the outcome of \<^verbatim>\<open>create_file\<close>, in the world the failing
  call has left. In a run, when the steps before a step have returned and the library call of
  that step (\<^verbatim>\<open>os.makedirs\<close> or \<^verbatim>\<open>create_file\<close>) raises an error, whichever it is, then
  \<^verbatim>\<open>create_directory_structure\<close> and the entry point raise that error in the very world
  the failing call has left: nothing is printed, nothing is undone (the directories and files
  of the earlier steps are there, and so is whatever the tree held before the run), no call
  of a later step is issued, and the tree differs from the one before the run only at the
  locations that the paths of the earlier steps and of the failing step name. Every run that
  raises is of this form.
\<close>

theorem error_aborts_run:
  "(\<forall>p c e w1. os_makedirs (os_path_dirname p) w = Raised e w1
       \<longrightarrow> create_file p c w = Raised e w1)
   \<and> (\<forall>p c w1 e w2. os_makedirs (os_path_dirname p) w = Done () w1 \<and> open_w p w1 = Raised e w2
       \<longrightarrow> create_file p c w = Raised e w2)
   \<and> (\<forall>p c w1 f w2 e w3. os_makedirs (os_path_dirname p) w = Done () w1
          \<and> open_w p w1 = Done f w2 \<and> file_write f c w2 = Raised e w3
       \<longrightarrow> create_file p c w = Raised e w3)
   \<and> (\<forall>before s after wk p c e w'.
          program_steps = before @ s # after
          \<and> for_each run_step before w = Done () wk
          \<and> (s = MakedirsStep p \<and> os_makedirs p wk = Raised e w'
               \<or> s = CreateFileStep p c \<and> create_file p c wk = Raised e w')
       \<longrightarrow> create_directory_structure w = Raised e w'
           \<and> main w = Raised e w'
           \<and> stdout w' = stdout w
           \<and> list_all (\<lambda>t. step_post t w') before
           \<and> kept w w'
           \<and> (\<exists>k < length (calls_of_step s).
                 calls_made w (create_directory_structure w)
                   = concat (map calls_of_step before) @ take (Suc k) (calls_of_step s))
           \<and> (\<forall>l. nodes w' l \<noteq> nodes w l
                 \<longrightarrow> (\<exists>t \<in> set (before @ [s]). l \<in> set (path_locs w (step_path t)))))
   \<and> (\<forall>e w'. create_directory_structure w = Raised e w'
       \<longrightarrow> (\<exists>before s after wk.
              program_steps = before @ s # after
              \<and> for_each run_step before w = Done () wk
              \<and> run_step s wk = Raised e w'))"
proof (intro conjI allI impI)
  fix p c e w1 assume "os_makedirs (os_path_dirname p) w = Raised e w1"
  then show "create_file p c w = Raised e w1" by (rule create_file_makedirs_Raised)
next
  fix p c w1 e w2
  assume "os_makedirs (os_path_dirname p) w = Done () w1 \<and> open_w p w1 = Raised e w2"
  then show "create_file p c w = Raised e w2" using create_file_open_Raised by blast
next
  fix p c w1 f w2 e w3
  assume "os_makedirs (os_path_dirname p) w = Done () w1
          \<and> open_w p w1 = Done f w2 \<and> file_write f c w2 = Raised e w3"
  then show "create_file p c w = Raised e w3" using create_file_write_Raised by blast
next
  fix e w' assume "create_directory_structure w = Raised e w'"
  then have "for_each run_step program_steps w = Raised e w'" by (simp add: cds_steps)
  from steps_Raised_split [OF this]
  show "\<exists>before s after wk. program_steps = before @ s # after
      \<and> for_each run_step before w = Done () wk \<and> run_step s wk = Raised e w'" .
next
  fix before s after wk p c e w'
  assume a: "program_steps = before @ s # after
          \<and> for_each run_step before w = Done () wk
          \<and> (s = MakedirsStep p \<and> os_makedirs p wk = Raised e w'
               \<or> s = CreateFileStep p c \<and> create_file p c wk = Raised e w')"
  then have ps: "program_steps = before @ s # after"
    and b: "for_each run_step before w = Done () wk" by simp_all
  from a have r: "run_step s wk = Raised e w'" by auto
  note run = step_Raised_run [OF ps b r]
  note st = step_Raised_state [OF ps b r]
  show "create_directory_structure w = Raised e w'" using run .
  show "main w = Raised e w'" using run by (simp add: main_def)
  show "stdout w' = stdout w" using st(1) .
  show "list_all (\<lambda>t. step_post t w') before" using st(2) .
  show "kept w w'" using st(3) .
  show "\<exists>k < length (calls_of_step s).
      calls_made w (create_directory_structure w)
        = concat (map calls_of_step before) @ take (Suc k) (calls_of_step s)" using st(4) .
  fix l assume "nodes w' l \<noteq> nodes w l"
  then show "\<exists>t \<in> set (before @ [s]). l \<in> set (path_locs w (step_path t))" using st(5) by blast
qed

theorem error_aborts_run_witness:
  "create_directory_structure deny_world = Raised PermissionError (world_of (main deny_world))
   \<and> main deny_world = Raised PermissionError (world_of (main deny_world))
   \<and> stdout (world_of (main deny_world)) = []
   \<and> os_path_isdir (world_of (main deny_world)) base_dir
   \<and> read_file (world_of (main deny_world)) (os_path_join base_dir ''README.md'') = Some []
   \<and> read_file (world_of (main deny_world)) (os_path_join base_dir ''docker-compose.yml'')
       = Some []
   \<and> \<not> os_path_exists (world_of (main deny_world)) (os_path_join base_dir ''public'')
   \<and> \<not> os_path_exists (world_of (main deny_world)) (os_path_join base_dir ''src'')
   \<and> length (calls_made deny_world (create_directory_structure deny_world)) = 38"
proof -
  let ?p = "os_path_join base_dir ''public/images/payment-methods''"
  let ?b = "MakedirsStep base_dir # map default_step root_files"
  let ?a = "map dir_step [''public/locales/en'', ''public/locales/sw'']
      @ map file_step public_files @ map dir_step src_dirs @ map file_step src_files
      @ [dir_step ''data'', file_step (''data/presale-pricing.json'', [])]
      @ map default_step docs_files @ map dir_step test_dirs"
  let ?wk = "world_of (for_each run_step ?b deny_world)"
  let ?w' = "world_of (os_makedirs ?p ?wk)"
  have ps: "program_steps = ?b @ MakedirsStep ?p # ?a"
    by (simp add: program_steps_def public_dirs_def dir_step_def)
  have "succeeded (for_each run_step ?b deny_world)" by code_simp
  then have b: "for_each run_step ?b deny_world = Done () ?wk" by (rule unit_outcome_Done)
  have "case os_makedirs ?p ?wk of Raised e u \<Rightarrow> e = PermissionError | Done x u \<Rightarrow> False"
    by code_simp
  then have r: "os_makedirs ?p ?wk = Raised PermissionError ?w'"
    by (cases "os_makedirs ?p ?wk") simp_all
  have h: "program_steps = ?b @ MakedirsStep ?p # ?a
      \<and> for_each run_step ?b deny_world = Done () ?wk
      \<and> (MakedirsStep ?p = MakedirsStep ?p \<and> os_makedirs ?p ?wk = Raised PermissionError ?w'
           \<or> MakedirsStep ?p = CreateFileStep ?p []
               \<and> create_file ?p [] ?wk = Raised PermissionError ?w')"
    using ps b r by blast
  note t = error_aborts_run [of deny_world, THEN conjunct2, THEN conjunct2, THEN conjunct2,
      THEN conjunct1, THEN spec, THEN spec, THEN spec, THEN spec, THEN spec, THEN spec,
      THEN spec, THEN spec, THEN mp, OF h]
  from t have run: "create_directory_structure deny_world = Raised PermissionError ?w'"
    and m: "main deny_world = Raised PermissionError ?w'"
    and out: "stdout ?w' = stdout deny_world"
    and posts: "list_all (\<lambda>t. step_post t ?w') ?b"
    and calls: "\<exists>k < length (calls_of_step (MakedirsStep ?p)).
        calls_made deny_world (create_directory_structure deny_world)
          = concat (map calls_of_step ?b) @ take (Suc k) (calls_of_step (MakedirsStep ?p))"
    by blast+
  have w': "world_of (main deny_world) = ?w'" using m by simp
  have d: "os_path_isdir ?w' base_dir" using posts by simp
  have "step_post (default_step ''README.md'') ?w'"
    using posts by (simp add: root_files_def)
  then have f1: "read_file ?w' (os_path_join base_dir ''README.md'') = Some []"
    by (simp add: default_step_def default_content_def)
  have "step_post (default_step ''docker-compose.yml'') ?w'"
    using posts by (simp add: root_files_def)
  then have f2: "read_file ?w' (os_path_join base_dir ''docker-compose.yml'') = Some []"
    by (simp add: default_step_def default_content_def)
  have n1: "\<not> os_path_exists ?w' (os_path_join base_dir ''public'')" by code_simp
  have n2: "\<not> os_path_exists ?w' (os_path_join base_dir ''src'')" by code_simp
  have "length (concat (map calls_of_step ?b)) = 37"
    by (simp add: root_files_def default_step_def)
  then have len: "length (calls_made deny_world (create_directory_structure deny_world)) = 38"
    using calls by auto
  have o: "stdout ?w' = []" using out by (simp add: deny_world_def)
  show ?thesis unfolding w' using run m o d f1 f2 n1 n2 len by blast
qed

text \<open>
  C7. The entry point prints the confirmation exactly when the whole of
  \<open>create_directory_structure\<close> has returned. Either every step returns, all calls of the
  script have been issued and the line is printed after them; or a call raises, the entry
  point raises the same error in the world that call has reached, and nothing is printed.
\<close>

theorem success_message_iff:
  "succeeded (main w) = succeeded (create_directory_structure w)
   \<and> stdout (world_of (main w))
       = stdout w @ (if succeeded (create_directory_structure w)
                     then [''Directory structure created successfully!''] else [])
   \<and> (case create_directory_structure w of
         Done u w1 \<Rightarrow>
           calls_made w (main w)
             = program_calls @ [Print ''Directory structure created successfully!'']
       | Raised e w1 \<Rightarrow>
           main w = Raised e w1
           \<and> Print ''Directory structure created successfully!'' \<notin> set (calls_made w (main w)))"
proof (cases "create_directory_structure w")
  case (Done u w1)
  have so: "stdout w1 = stdout w" using steps_stdout [of program_steps w] Done by (simp add: cds_steps)
  have tr: "trace w1 = trace w @ program_calls"
    using cds_calls_Done [OF Done] steps_trace_Done [of program_steps w u w1] Done
    by (simp add: cds_steps program_calls_def)
  show ?thesis
    using Done so tr by (simp add: main_def print_line_def logged_simps calls_made_def)
next
  case (Raised e w1)
  have so: "stdout w1 = stdout w"
    using steps_stdout [of program_steps w] Raised by (simp add: cds_steps)
  have m: "main w = Raised e w1" using Raised by (simp add: main_def)
  have "calls_made w (main w) = calls_made w (create_directory_structure w)"
    using m Raised by (simp add: calls_made_def)
  then have "set (calls_made w (main w)) \<subseteq> set program_calls" using cds_calls_subset [of w] by simp
  moreover have "Print x \<notin> set program_calls" for x
  proof
    assume "Print x \<in> set program_calls"
    then obtain s where c: "Print x \<in> set (calls_of_step s)" by (auto simp: program_calls_def)
    show False by (cases s) (use c in auto)
  qed
  ultimately show ?thesis using Raised so m by auto
qed

theorem success_message_iff_witness:
  "succeeded (main empty_world)
   \<and> stdout (world_of (main empty_world)) = [''Directory structure created successfully!'']"
proof -
  from cds_tidy [OF tidy_empty_world] obtain w' where
    "create_directory_structure empty_world = Done () w'" by blast
  then show ?thesis
    using success_message_iff [of empty_world] by (simp add: empty_world_def)
qed





text \<open>
  C9. \<open>create_file\<close> has an unstated precondition. For a path without a separator the
  directory part is the empty string, \<^verbatim>\<open>os.makedirs\<close> is called on it and raises, so
  \<open>create_file\<close> raises before it opens anything. The script never gets there: every path
  it hands to \<open>create_file\<close> is joined with \<open>base_dir\<close> and has a directory part that is
  not empty, and no run of the script calls \<^verbatim>\<open>os.makedirs\<close> on the empty string.
\<close>

theorem create_file_bare_name_raises:
  "(CHR ''/'' \<notin> set path \<longrightarrow>
      os_path_dirname path = []
      \<and> create_file path content w = Raised FileNotFoundError (logged (Makedirs []) w))
   \<and> (\<forall>s \<in> set program_steps. \<forall>p c. s = CreateFileStep p c \<longrightarrow> os_path_dirname p \<noteq> [])
   \<and> Makedirs [] \<notin> set (calls_made w (create_directory_structure w))"
proof (intro conjI impI ballI allI)
  assume a: "CHR ''/'' \<notin> set path"
  then show d: "os_path_dirname path = []" by (simp add: dirname_Nil_iff)
  show "create_file path content w = Raised FileNotFoundError (logged (Makedirs []) w)"
    by (simp add: create_file_def d os_makedirs_def makedirs_Nil)
next
  fix s p c
  assume "s \<in> set program_steps" and "s = CreateFileStep p c"
  then show "os_path_dirname p \<noteq> []"
    by (cases rule: program_steps_cases) (auto simp: join_base_dir_dirname)
next
  show "Makedirs [] \<notin> set (calls_made w (create_directory_structure w))"
    using cds_calls_subset [of w] program_calls_Makedirs [of "[]"] by blast
qed

theorem create_file_bare_name_raises_witness:
  "os_path_dirname ''README.md'' = []
   \<and> create_file ''README.md'' [] empty_world
       = Raised FileNotFoundError (logged (Makedirs []) empty_world)
   \<and> os_path_dirname (os_path_join base_dir ''README.md'') \<noteq> []
   \<and> Makedirs [] \<notin> set (calls_made empty_world (create_directory_structure empty_world))"
proof -
  have m: "default_step ''README.md'' \<in> set program_steps"
    by (simp add: program_steps_def root_files_def)
  have n: "CHR ''/'' \<notin> set ''README.md''" by simp
  show ?thesis
    using create_file_bare_name_raises [of "''README.md''" "[]" empty_world] m n
    by (auto simp: default_step_def)
qed



end
